theory Spec2Isabelle
  imports Main "HOL-Library.Monad_Syntax"
begin


section \<open>Primitive types consumed from collaborators\<close>

text \<open>
  Field elements occur in the account-update code only through the constants
  \<^verbatim>\<open>Field(0)\<close>, \<^verbatim>\<open>Field(1)\<close>, equality and the hash primitives, so a field
  element is a natural number here and the hash primitives are parameters.
\<close>

type_synonym field = nat

text \<open>
  Modelled from the spec: \<^verbatim>\<open>PublicKey\<close> (signature.js), of which only \<^verbatim>\<open>empty()\<close>,
  \<^verbatim>\<open>isEmpty()\<close> and \<^verbatim>\<open>equals\<close> are used. The spec gives a key type with a
  deterministic empty placeholder key; a dummy node is one whose key is that placeholder.
\<close>

datatype public_key = PublicKey nat

definition PublicKey_empty :: public_key where
  "PublicKey_empty = PublicKey 0"

definition isEmpty :: "public_key \<Rightarrow> bool" where
  "isEmpty pk \<longleftrightarrow> pk = PublicKey_empty"

datatype private_key = PrivateKey nat

text \<open>The errors thrown by the functions modelled below.\<close>

datatype error =
    InvalidPermission string
  | MissingFeePayerKey public_key
  | MissingKey public_key
  | AssertionFailed
  | NoCurrentTransaction
  | RangeError nat

section \<open>Permissions\<close>

record Permission =
  isConstant :: bool
  signatureNecessary :: bool
  signatureSufficient :: bool

definition impossible :: Permission where
  "impossible = \<lparr>isConstant = True, signatureNecessary = True, signatureSufficient = False\<rparr>"

definition none :: Permission where
  "none = \<lparr>isConstant = True, signatureNecessary = False, signatureSufficient = True\<rparr>"

definition proof_permission :: Permission where
  "proof_permission = \<lparr>isConstant = False, signatureNecessary = False, signatureSufficient = False\<rparr>"

definition signature_permission :: Permission where
  "signature_permission = \<lparr>isConstant = False, signatureNecessary = True, signatureSufficient = True\<rparr>"

definition proofOrSignature :: Permission where
  "proofOrSignature = \<lparr>isConstant = False, signatureNecessary = False, signatureSufficient = True\<rparr>"

definition fromString :: "string \<Rightarrow> error + Permission" where
  "fromString permission =
     (if permission = ''None'' then Inr none
      else if permission = ''Either'' then Inr proofOrSignature
      else if permission = ''Proof'' then Inr proof_permission
      else if permission = ''Signature'' then Inr signature_permission
      else if permission = ''Impossible'' then Inr impossible
      else Inl (InvalidPermission permission))"

section \<open>The account update and the object store\<close>

text \<open>
  An \<^verbatim>\<open>AccountUpdate\<close> is a mutable object: its children list holds references to other
  such objects, and \<^verbatim>\<open>parent\<close> is a reference back. The objects live in a store
  indexed by references; every function that assigns to a field returns the new store.
  A \<^verbatim>\<open>Body\<close> carries the fields the functions below read or write (the remaining
  fields of the body are data that these functions only copy). The field \<^verbatim>\<open>id\<close> is
  \<^verbatim>\<open>update_id\<close> here, \<^verbatim>\<open>children.callsType\<close> and \<^verbatim>\<open>children.accountUpdates\<close> are
  \<^verbatim>\<open>children_callsType\<close> and \<^verbatim>\<open>children_accountUpdates\<close>, and the keys
  \<^verbatim>\<open>proof\<close> and \<^verbatim>\<open>signature\<close> of a \<^verbatim>\<open>Control\<close> are options: \<^verbatim>\<open>None\<close> is an absent key.
\<close>

type_synonym ref = nat
type_synonym number = nat

record AuthorizationKind =
  isSigned :: bool
  isProved :: bool

record Body =
  publicKey :: public_key
  tokenId :: field
  caller :: field
  callDepth :: nat
  useFullCommitment :: bool
  incrementNonce :: bool
  authorizationKind :: AuthorizationKind

record Control =
  control_proof :: "string option"
  control_signature :: "string option"

record LazyProof =
  methodName :: string
  blindingValue :: field

datatype LazyAuthorization =
    LazySignature "private_key option"
  | LazyProof LazyProof
  | LazyNone

datatype CallsType = CallsNone | Witness | Equals field

record AccountUpdate =
  update_id :: number
  label :: string
  body :: Body
  isDelegateCall :: bool
  authorization :: Control
  lazyAuthorization :: "LazyAuthorization option"
  children_callsType :: CallsType
  children_accountUpdates :: "ref list"
  parent :: "ref option"
  isSelf :: bool

type_synonym heap = "ref \<Rightarrow> AccountUpdate"

text \<open>
  \<^verbatim>\<open>Mina.currentTransaction\<close>, of which the code reads \<^verbatim>\<open>sender\<close> and
  \<^verbatim>\<open>accountUpdates\<close> (the top-level list). The state holds the store, the number of
  objects created so far (references below it are in use), the results that
  \<^verbatim>\<open>Math.random()\<close> will give with the number of draws made, and the current
  transaction, if there is one.
\<close>

record CurrentTransaction =
  sender :: "public_key option"
  accountUpdates :: "ref list"

record State =
  heap :: heap
  allocated :: nat
  random :: "nat \<Rightarrow> number"
  draws :: nat
  currentTransaction :: "CurrentTransaction option"

definition modify :: "ref \<Rightarrow> (AccountUpdate \<Rightarrow> AccountUpdate) \<Rightarrow> heap \<Rightarrow> heap" where
  "modify r f h = h(r := f (h r))"

definition TokenId_default :: field where
  "TokenId_default = 1"

definition isDummy :: "AccountUpdate \<Rightarrow> bool" where
  "isDummy a = isEmpty (publicKey (body a))"

definition emptyControl :: Control where
  "emptyControl = \<lparr>control_proof = None, control_signature = None\<rparr>"

text \<open>
  The constructor: \<^verbatim>\<open>authorization\<close> defaults to \<^verbatim>\<open>{}\<close> (\<^verbatim>\<open>emptyControl\<close>) and
  \<^verbatim>\<open>isSelf\<close> to false at the call sites that omit them; the other fields take their
  class-field initialisers.
\<close>

definition new_AccountUpdate :: "State \<Rightarrow> Body \<Rightarrow> Control \<Rightarrow> bool \<Rightarrow> State \<times> ref" where
  "new_AccountUpdate s body' authorization' isSelf' =
     (let this = allocated s;
          object = \<lparr>update_id = random s (draws s), label = [], body = body',
                    isDelegateCall = False, authorization = authorization',
                    lazyAuthorization = None, children_callsType = CallsNone,
                    children_accountUpdates = [], parent = None, isSelf = isSelf'\<rparr>
      in (s\<lparr>heap := (heap s)(this := object), allocated := Suc this, draws := Suc (draws s)\<rparr>, this))"

text \<open>\<^verbatim>\<open>Body.keepAll\<close>, \<^verbatim>\<open>AccountUpdate.defaultAccountUpdate\<close> and \<^verbatim>\<open>AccountUpdate.dummy\<close>.\<close>

definition keepAll :: "public_key \<Rightarrow> Body" where
  "keepAll publicKey' =
     \<lparr>publicKey = publicKey', tokenId = TokenId_default, caller = TokenId_default, callDepth = 0,
      useFullCommitment = False, incrementNonce = False,
      authorizationKind = \<lparr>isSigned = False, isProved = False\<rparr>\<rparr>"

definition defaultAccountUpdate :: "State \<Rightarrow> public_key \<Rightarrow> field option \<Rightarrow> State \<times> ref" where
  "defaultAccountUpdate s address tokenId' =
     (let body0 = keepAll address;
          body1 = (case tokenId' of
                     Some t \<Rightarrow> body0\<lparr>tokenId := t, caller := t\<rparr>
                   | None \<Rightarrow> body0)
      in new_AccountUpdate s body1 emptyControl False)"

definition dummy :: "State \<Rightarrow> State \<times> ref" where
  "dummy s = defaultAccountUpdate s PublicKey_empty None"

subsection \<open>clone\<close>

text \<open>
  \<^verbatim>\<open>clone\<close> creates the new object and copies \<^verbatim>\<open>lazyAuthorization\<close> and \<^verbatim>\<open>callsType\<close>
  (\<^verbatim>\<open>clone_begin\<close>), clones the children with \<^verbatim>\<open>map(AccountUpdate.clone)\<close> (\<^verbatim>\<open>clone_map\<close>),
  and then assigns the children, \<^verbatim>\<open>id\<close>, \<^verbatim>\<open>label\<close>, \<^verbatim>\<open>parent\<close> and \<^verbatim>\<open>isDelegateCall\<close>
  (\<^verbatim>\<open>clone_finish\<close>). The recursion runs through the children lists in the store, so it
  is a partial function: \<^verbatim>\<open>None\<close> is a call that does not return.
\<close>

definition clone_begin :: "State \<Rightarrow> ref \<Rightarrow> State \<times> ref" where
  "clone_begin s accountUpdate =
     (let body' = body (heap s accountUpdate);
          authorization' = authorization (heap s accountUpdate);
          (s1, cloned) = new_AccountUpdate s body' authorization' (isSelf (heap s accountUpdate));
          s2 = s1\<lparr>heap := modify cloned
                 (\<lambda>c. c\<lparr>lazyAuthorization := lazyAuthorization (heap s1 accountUpdate)\<rparr>) (heap s1)\<rparr>;
          s3 = s2\<lparr>heap := modify cloned
                 (\<lambda>c. c\<lparr>children_callsType := children_callsType (heap s2 accountUpdate)\<rparr>) (heap s2)\<rparr>
      in (s3, cloned))"

definition clone_finish :: "State \<Rightarrow> ref \<Rightarrow> ref \<Rightarrow> ref list \<Rightarrow> State" where
  "clone_finish s accountUpdate cloned clonedChildren =
     (let s1 = s\<lparr>heap := modify cloned (\<lambda>c. c\<lparr>children_accountUpdates := clonedChildren\<rparr>) (heap s)\<rparr>;
          s2 = s1\<lparr>heap := modify cloned (\<lambda>c. c\<lparr>update_id := update_id (heap s1 accountUpdate)\<rparr>) (heap s1)\<rparr>;
          s3 = s2\<lparr>heap := modify cloned (\<lambda>c. c\<lparr>label := label (heap s2 accountUpdate)\<rparr>) (heap s2)\<rparr>;
          s4 = s3\<lparr>heap := modify cloned (\<lambda>c. c\<lparr>parent := parent (heap s3 accountUpdate)\<rparr>) (heap s3)\<rparr>
      in s4\<lparr>heap := modify cloned
              (\<lambda>c. c\<lparr>isDelegateCall := isDelegateCall (heap s4 accountUpdate)\<rparr>) (heap s4)\<rparr>)"

partial_function (option) clone_map :: "State \<Rightarrow> ref list \<Rightarrow> (State \<times> ref list) option" where
  "clone_map s updates =
     (case updates of
        [] \<Rightarrow> Some (s, [])
      | accountUpdate # rest \<Rightarrow> do {
          let (s1, cloned) = clone_begin s accountUpdate;
          (s2, clonedChildren) \<leftarrow> clone_map s1 (children_accountUpdates (heap s1 accountUpdate));
          let s3 = clone_finish s2 accountUpdate cloned clonedChildren;
          (s4, clonedRest) \<leftarrow> clone_map s3 rest;
          Some (s4, cloned # clonedRest)
        })"

declare clone_map.simps [code]

definition clone :: "State \<Rightarrow> ref \<Rightarrow> (State \<times> ref) option" where
  "clone s accountUpdate = do {
     let (s1, cloned) = clone_begin s accountUpdate;
     (s2, clonedChildren) \<leftarrow> clone_map s1 (children_accountUpdates (heap s1 accountUpdate));
     Some (clone_finish s2 accountUpdate cloned clonedChildren, cloned)
   }"

subsection \<open>unlink, makeChildAccountUpdate, approve\<close>

fun findIndex :: "('a \<Rightarrow> bool) \<Rightarrow> 'a list \<Rightarrow> nat option" where
  "findIndex p [] = None"
| "findIndex p (x # xs) = (if p x then Some 0 else map_option Suc (findIndex p xs))"

definition splice1 :: "nat \<Rightarrow> 'a list \<Rightarrow> 'a list" where
  "splice1 i xs = take i xs @ drop (Suc i) xs"

text \<open>
  \<^verbatim>\<open>unlink\<close> takes the siblings from the parent reference if there is one and from the
  current transaction otherwise, and removes the first entry with the id of the update.
  Its last statement, \<^verbatim>\<open>accountUpdate.parent === undefined;\<close>, is a comparison and
  assigns nothing, so the parent reference stays.
\<close>

definition unlink :: "State \<Rightarrow> ref \<Rightarrow> State" where
  "unlink s accountUpdate =
     (let matches = (\<lambda>update. update_id (heap s update) = update_id (heap s accountUpdate)) in
      case parent (heap s accountUpdate) of
        Some p \<Rightarrow>
          (case findIndex matches (children_accountUpdates (heap s p)) of
             None \<Rightarrow> s
           | Some i \<Rightarrow> s\<lparr>heap := modify p
               (\<lambda>a. a\<lparr>children_accountUpdates := splice1 i (children_accountUpdates a)\<rparr>) (heap s)\<rparr>)
      | None \<Rightarrow>
          (case currentTransaction s of
             None \<Rightarrow> s
           | Some tx \<Rightarrow>
               (case findIndex matches (accountUpdates tx) of
                  None \<Rightarrow> s
                | Some i \<Rightarrow> s\<lparr>currentTransaction :=
                    Some (tx\<lparr>accountUpdates := splice1 i (accountUpdates tx)\<rparr>)\<rparr>)))"

definition makeChildAccountUpdate :: "State \<Rightarrow> ref \<Rightarrow> ref \<Rightarrow> State" where
  "makeChildAccountUpdate s parent' child =
     (let s1 = s\<lparr>heap := modify child
                 (\<lambda>c. c\<lparr>body := (body c)\<lparr>callDepth := callDepth (body (heap s parent')) + 1\<rparr>\<rparr>) (heap s)\<rparr>;
          wasChildAlready = find (\<lambda>update. update_id (heap s1 update) = update_id (heap s1 child))
                              (children_accountUpdates (heap s1 parent'));
          s2 = (if wasChildAlready = None
                then unlink (s1\<lparr>heap := modify parent'
                       (\<lambda>p. p\<lparr>children_accountUpdates := children_accountUpdates p @ [child]\<rparr>) (heap s1)\<rparr>) child
                else s1)
      in s2\<lparr>heap := modify child (\<lambda>c. c\<lparr>parent := Some parent'\<rparr>) (heap s2)\<rparr>)"

text \<open>
  \<^verbatim>\<open>approve\<close> for the layouts that \<^verbatim>\<open>witnessChildren\<close> settles by itself:
  \<^verbatim>\<open>AnyChildren\<close>, \<^verbatim>\<open>NoDelegation\<close> (the default) and \<^verbatim>\<open>NoChildren\<close>, which is
  \<^verbatim>\<open>StaticChildren\<close> of length 0. A longer static layout witnesses each child through
  \<^verbatim>\<open>Circuit.witness\<close>, which belongs to the proof system.
\<close>

datatype AccountUpdatesLayout = NoChildren | AnyChildren | NoDelegation

definition emptyHash :: field where
  "emptyHash = 0"

definition witnessChildren :: "State \<Rightarrow> ref \<Rightarrow> AccountUpdatesLayout \<Rightarrow> error + State" where
  "witnessChildren s accountUpdate childLayout =
     (case childLayout of
        AnyChildren \<Rightarrow>
          Inr (s\<lparr>heap := modify accountUpdate (\<lambda>a. a\<lparr>children_callsType := Witness\<rparr>) (heap s)\<rparr>)
      | NoDelegation \<Rightarrow>
          (let s1 = s\<lparr>heap := modify accountUpdate (\<lambda>a. a\<lparr>children_callsType := Witness\<rparr>) (heap s)\<rparr>
           in if isDelegateCall (heap s1 accountUpdate) then Inl AssertionFailed else Inr s1)
      | NoChildren \<Rightarrow>
          Inr (s\<lparr>heap := modify accountUpdate (\<lambda>a. a\<lparr>children_callsType := Equals emptyHash\<rparr>) (heap s)\<rparr>))"

definition approve :: "State \<Rightarrow> ref \<Rightarrow> ref \<Rightarrow> AccountUpdatesLayout \<Rightarrow> error + State" where
  "approve s this childUpdate layout =
     (let s1 = makeChildAccountUpdate s this childUpdate;
          s2 = s1\<lparr>heap := modify this (\<lambda>a. a\<lparr>isDelegateCall := False\<rparr>) (heap s1)\<rparr>
      in witnessChildren s2 childUpdate layout)"

text \<open>
  \<^verbatim>\<open>attachToTransaction\<close>; the argument \<^verbatim>\<open>selfUpdate\<close> is
  \<^verbatim>\<open>smartContractContext.get().this.self\<close> when a smart contract method is running and
  \<^verbatim>\<open>None\<close> when \<^verbatim>\<open>smartContractContext.has()\<close> is false.
\<close>

definition attachToTransaction :: "State \<Rightarrow> ref option \<Rightarrow> ref \<Rightarrow> error + State" where
  "attachToTransaction s selfUpdate accountUpdate =
     (case selfUpdate of
        Some self' \<Rightarrow>
          if self' = accountUpdate then Inr s else approve s self' accountUpdate NoDelegation
      | None \<Rightarrow>
          (case currentTransaction s of
             None \<Rightarrow> Inr s
           | Some tx \<Rightarrow>
               if find (\<lambda>update. update_id (heap s update) = update_id (heap s accountUpdate))
                    (accountUpdates tx) = None
               then Inr (s\<lparr>currentTransaction :=
                            Some (tx\<lparr>accountUpdates := accountUpdates tx @ [accountUpdate]\<rparr>)\<rparr>)
               else Inr s))"

subsection \<open>Authorization\<close>

definition hasAny :: "AccountUpdate \<Rightarrow> bool" where
  "hasAny accountUpdate \<longleftrightarrow>
     lazyAuthorization accountUpdate \<noteq> None
     \<or> control_proof (authorization accountUpdate) \<noteq> None
     \<or> control_signature (authorization accountUpdate) \<noteq> None"

definition setSignature :: "heap \<Rightarrow> ref \<Rightarrow> string \<Rightarrow> heap" where
  "setSignature h accountUpdate signature' =
     modify accountUpdate (\<lambda>a. a\<lparr>lazyAuthorization := None\<rparr>)
       (modify accountUpdate
          (\<lambda>a. a\<lparr>authorization := \<lparr>control_proof = None, control_signature = Some signature'\<rparr>\<rparr>) h)"

definition setProof :: "heap \<Rightarrow> ref \<Rightarrow> string \<Rightarrow> heap" where
  "setProof h accountUpdate proof' =
     modify accountUpdate (\<lambda>a. a\<lparr>lazyAuthorization := None\<rparr>)
       (modify accountUpdate
          (\<lambda>a. a\<lparr>authorization := \<lparr>control_proof = Some proof', control_signature = None\<rparr>\<rparr>) h)"

definition setAuthorizationKind :: "bool \<Rightarrow> bool \<Rightarrow> AccountUpdate \<Rightarrow> AccountUpdate" where
  "setAuthorizationKind signed proved a =
     a\<lparr>body := (body a)\<lparr>authorizationKind := \<lparr>isSigned = signed, isProved = proved\<rparr>\<rparr>\<rparr>"

definition setLazySignature :: "heap \<Rightarrow> ref \<Rightarrow> private_key option \<Rightarrow> heap" where
  "setLazySignature h accountUpdate privateKey =
     modify accountUpdate (\<lambda>a. a\<lparr>lazyAuthorization := Some (LazySignature privateKey)\<rparr>)
       (modify accountUpdate (\<lambda>a. a\<lparr>authorization := emptyControl\<rparr>)
          (modify accountUpdate (setAuthorizationKind True False) h))"

definition setLazyProof :: "heap \<Rightarrow> ref \<Rightarrow> LazyProof \<Rightarrow> heap" where
  "setLazyProof h accountUpdate proof' =
     modify accountUpdate (\<lambda>a. a\<lparr>lazyAuthorization := Some (LazyProof proof')\<rparr>)
       (modify accountUpdate (\<lambda>a. a\<lparr>authorization := emptyControl\<rparr>)
          (modify accountUpdate (setAuthorizationKind False True) h))"

definition setLazyNone :: "heap \<Rightarrow> ref \<Rightarrow> heap" where
  "setLazyNone h accountUpdate =
     modify accountUpdate (\<lambda>a. a\<lparr>lazyAuthorization := Some LazyNone\<rparr>)
       (modify accountUpdate (\<lambda>a. a\<lparr>authorization := emptyControl\<rparr>)
          (modify accountUpdate (setAuthorizationKind False False) h))"

section \<open>CallForest\<close>

subsection \<open>toFlatList\<close>

partial_function (option) toFlatList :: "heap \<Rightarrow> ref list \<Rightarrow> nat \<Rightarrow> (heap \<times> ref list) option" where
  "toFlatList h forest depth =
     (case forest of
        [] \<Rightarrow> Some (h, [])
      | accountUpdate # rest \<Rightarrow>
          if isDummy (h accountUpdate) then toFlatList h rest depth
          else do {
            let h1 = modify accountUpdate (\<lambda>a. a\<lparr>body := (body a)\<lparr>callDepth := depth\<rparr>\<rparr>) h;
            let children = children_accountUpdates (h1 accountUpdate);
            (h2, below) \<leftarrow> toFlatList h1 children (depth + 1);
            (h3, after) \<leftarrow> toFlatList h2 rest depth;
            Some (h3, accountUpdate # below @ after)
          })"

declare toFlatList.simps [code]

subsection \<open>hashChildren and hashChildrenBase\<close>

text \<open>
  The hash primitive \<^verbatim>\<open>hashWithPrefix\<close>, the hash of one account update
  (\<^verbatim>\<open>accountUpdate.hash()\<close>) and the flag \<^verbatim>\<open>inCheckedComputation()\<close> come from the
  hashing library and the proof system; they are parameters. \<^verbatim>\<open>Circuit.witness\<close> returns
  the value its callback computes. \<^verbatim>\<open>assertEquals\<close> throws when the values differ.

  \<^verbatim>\<open>hashChildren\<close> calls \<^verbatim>\<open>hashChildrenBase\<close>, whose loop calls \<^verbatim>\<open>hashChildren\<close> on each
  child. The recursive function is the loop (\<^verbatim>\<open>hashChildrenLoop\<close>, over the reversed
  children with the running \<^verbatim>\<open>stackHash\<close>); \<^verbatim>\<open>hashChildren_of\<close> is what
  \<^verbatim>\<open>hashChildren\<close> does with the result of \<^verbatim>\<open>hashChildrenBase\<close>.
\<close>

datatype prefix = accountUpdateNode | accountUpdateCons

type_synonym hashWithPrefix = "prefix \<Rightarrow> field list \<Rightarrow> field"

definition hashChildren_of :: "bool \<Rightarrow> CallsType \<Rightarrow> error + field \<Rightarrow> error + field" where
  "hashChildren_of inCheckedComputation callsType base =
     (case base of
        Inl e \<Rightarrow> Inl e
      | Inr calls \<Rightarrow>
          (case callsType of
             Witness \<Rightarrow> Inr calls
           | Equals v \<Rightarrow> if inCheckedComputation \<and> calls \<noteq> v then Inl AssertionFailed else Inr calls
           | CallsNone \<Rightarrow> Inr calls))"

partial_function (option) hashChildrenLoop ::
  "hashWithPrefix \<Rightarrow> (AccountUpdate \<Rightarrow> field) \<Rightarrow> bool \<Rightarrow> heap \<Rightarrow> ref list \<Rightarrow> field
   \<Rightarrow> (error + field) option" where
  "hashChildrenLoop H hash inCheckedComputation h updates stackHash =
     (case updates of
        [] \<Rightarrow> Some (Inr stackHash)
      | accountUpdate # rest \<Rightarrow> do {
          base \<leftarrow> hashChildrenLoop H hash inCheckedComputation h
                    (rev (children_accountUpdates (h accountUpdate))) emptyHash;
          case hashChildren_of inCheckedComputation (children_callsType (h accountUpdate)) base of
            Inl e \<Rightarrow> Some (Inl e)
          | Inr calls \<Rightarrow>
              (let nodeHash = H accountUpdateNode [hash (h accountUpdate), calls];
                   newHash = H accountUpdateCons [nodeHash, stackHash]
               in hashChildrenLoop H hash inCheckedComputation h rest
                    (if isDummy (h accountUpdate) then stackHash else newHash))
        })"

declare hashChildrenLoop.simps [code]

definition hashChildrenBase ::
  "hashWithPrefix \<Rightarrow> (AccountUpdate \<Rightarrow> field) \<Rightarrow> bool \<Rightarrow> heap \<Rightarrow> ref \<Rightarrow> (error + field) option" where
  "hashChildrenBase H hash inCheckedComputation h update =
     hashChildrenLoop H hash inCheckedComputation h (rev (children_accountUpdates (h update))) emptyHash"

definition hashChildren ::
  "hashWithPrefix \<Rightarrow> (AccountUpdate \<Rightarrow> field) \<Rightarrow> bool \<Rightarrow> heap \<Rightarrow> ref \<Rightarrow> (error + field) option" where
  "hashChildren H hash inCheckedComputation h update = do {
     base \<leftarrow> hashChildrenBase H hash inCheckedComputation h update;
     Some (hashChildren_of inCheckedComputation (children_callsType (h update)) base)
   }"

subsection \<open>addCallers and computeCallerContext\<close>

text \<open>
  \<^verbatim>\<open>Token.getId\<close> is a parameter. \<^verbatim>\<open>addCallers\<close> returns nothing in the source; the
  model returns the store and, next to it, the list of the visited updates, each with the
  \<^verbatim>\<open>context\<close> its loop iteration ran in.
\<close>

record CallerContext =
  ctx_self :: field
  ctx_caller :: field

definition rootContext :: CallerContext where
  "rootContext = \<lparr>ctx_self = TokenId_default, ctx_caller = TokenId_default\<rparr>"

partial_function (option) addCallers ::
  "(public_key \<Rightarrow> field \<Rightarrow> field) \<Rightarrow> heap \<Rightarrow> ref list \<Rightarrow> CallerContext
   \<Rightarrow> (heap \<times> (ref \<times> CallerContext) list) option" where
  "addCallers getId h updates context =
     (case updates of
        [] \<Rightarrow> Some (h, [])
      | update # rest \<Rightarrow> do {
          let isDelegateCall' = isDelegateCall (h update);
          let caller' = (if isDelegateCall' then ctx_caller context else ctx_self context);
          let self' = (if isDelegateCall' then ctx_self context
                       else getId (publicKey (body (h update))) (tokenId (body (h update))));
          let h1 = modify update (\<lambda>a. a\<lparr>body := (body a)\<lparr>caller := caller'\<rparr>\<rparr>) h;
          let childContext = \<lparr>ctx_self = self', ctx_caller = caller'\<rparr>;
          (h2, below) \<leftarrow> addCallers getId h1 (children_accountUpdates (h1 update)) childContext;
          (h3, after) \<leftarrow> addCallers getId h2 rest context;
          Some (h3, (update, context) # below @ after)
        })"

declare addCallers.simps [code]

partial_function (option) ancestorsLoop :: "heap \<Rightarrow> ref \<Rightarrow> ref list \<Rightarrow> ref list option" where
  "ancestorsLoop h current ancestors =
     (case parent (h current) of
        None \<Rightarrow> Some ancestors
      | Some parent' \<Rightarrow> ancestorsLoop h parent' (parent' # ancestors))"

declare ancestorsLoop.simps [code]

definition computeCallerContext ::
  "(public_key \<Rightarrow> field \<Rightarrow> field) \<Rightarrow> heap \<Rightarrow> ref \<Rightarrow> CallerContext option" where
  "computeCallerContext getId h update = do {
     ancestors \<leftarrow> ancestorsLoop h update [];
     Some (fold (\<lambda>update context.
                   if \<not> isDelegateCall (h update)
                   then \<lparr>ctx_self = getId (publicKey (body (h update))) (tokenId (body (h update))),
                         ctx_caller = ctx_self context\<rparr>
                   else context)
             ancestors rootContext)
   }"

subsection \<open>forEach and forEachPredecessor\<close>

text \<open>
  The callback of \<^verbatim>\<open>forEach\<close> acts on variables of its closure; in the model it maps
  the value of these variables before the call to their value after it.
\<close>

partial_function (option) forEach :: "heap \<Rightarrow> ref list \<Rightarrow> (ref \<Rightarrow> 's \<Rightarrow> 's) \<Rightarrow> 's \<Rightarrow> 's option" where
  "forEach h updates callback v =
     (case updates of
        [] \<Rightarrow> Some v
      | update # rest \<Rightarrow> do {
          v' \<leftarrow> forEach h (children_accountUpdates (h update)) callback (callback update v);
          forEach h rest callback v'
        })"

declare forEach.simps [code]

text \<open>
  The second argument of \<^verbatim>\<open>forEachPredecessor\<close> is an account update or, through the
  cast in \<^verbatim>\<open>getSigningInfoUnchecked\<close>, a fee payer, whose \<^verbatim>\<open>id\<close> is undefined.
\<close>

record FeePayerBody =
  fp_publicKey :: public_key
  fp_nonce :: nat
  fp_fee :: nat
  fp_validUntil :: "nat option"

record FeePayer =
  fp_body :: FeePayerBody
  fp_authorization :: string

record FeePayerUnsigned = FeePayer +
  fp_lazyAuthorization :: "private_key option option"

datatype Update = AccountUpdate_of ref | FeePayer_of FeePayerUnsigned

fun id_of :: "heap \<Rightarrow> Update \<Rightarrow> number option" where
  "id_of h (AccountUpdate_of update) = Some (update_id (h update))"
| "id_of h (FeePayer_of feePayer) = None"

definition forEachPredecessor ::
  "heap \<Rightarrow> ref list \<Rightarrow> Update \<Rightarrow> (ref \<Rightarrow> 's \<Rightarrow> 's) \<Rightarrow> 's \<Rightarrow> 's option" where
  "forEachPredecessor h updates update callback v =
     map_option snd
       (forEach h updates
          (\<lambda>otherUpdate (isPredecessor, v).
             let isPredecessor' =
                   (if Some (update_id (h otherUpdate)) = id_of h update then False else isPredecessor)
             in (isPredecessor', if isPredecessor' then callback otherUpdate v else v))
          (True, v))"

subsection \<open>getSigningInfoUnchecked\<close>

text \<open>
  Modelled from the spec: \<^verbatim>\<open>Precondition.getAccountPreconditions(body).nonce\<close>
  (precondition.js), the on-chain nonce of the account that the body's public key and
  token id name; it is the parameter \<^verbatim>\<open>accountNonce\<close>. \<^verbatim>\<open>Mina.currentTransaction.get()\<close>
  throws outside a transaction.

  \<^verbatim>\<open>UInt32.from\<close> (int.js) is not among the sources either. A \<^verbatim>\<open>UInt32\<close> is a 32-bit unsigned
  integer, and \<^verbatim>\<open>UInt32.from\<close> of a number checks the range: it throws for a number above
  \<open>2\<^sup>3\<^sup>2 - 1\<close>. The counter \<^verbatim>\<open>nonce\<close> is a JavaScript number that starts from a
  \<^verbatim>\<open>UInt32\<close> and is incremented at most once per node, so it is a natural number here.
\<close>

definition UInt32_MAXINT :: nat where
  "UInt32_MAXINT = 2 ^ 32 - 1"

definition UInt32_from :: "nat \<Rightarrow> error + nat" where
  "UInt32_from x = (if x \<le> UInt32_MAXINT then Inr x else Inl (RangeError x))"

record SigningInfo =
  nonce :: nat
  isSameAsFeePayer :: bool

fun publicKey_of :: "heap \<Rightarrow> Update \<Rightarrow> public_key" where
  "publicKey_of h (AccountUpdate_of update) = publicKey (body (h update))"
| "publicKey_of h (FeePayer_of feePayer) = fp_publicKey (fp_body feePayer)"

fun tokenId_of :: "heap \<Rightarrow> Update \<Rightarrow> field option" where
  "tokenId_of h (AccountUpdate_of update) = Some (tokenId (body (h update)))"
| "tokenId_of h (FeePayer_of feePayer) = None"

definition getSigningInfoUnchecked ::
  "(public_key \<Rightarrow> field option \<Rightarrow> nat) \<Rightarrow> State \<Rightarrow> Update \<Rightarrow> (error + SigningInfo) option" where
  "getSigningInfoUnchecked accountNonce s update =
     (let publicKey' = publicKey_of (heap s) update;
          tokenId' = (case tokenId_of (heap s) update of Some t \<Rightarrow> t | None \<Rightarrow> TokenId_default);
          nonce0 = accountNonce publicKey' (tokenId_of (heap s) update);
          isSameAsFeePayer' =
            (case currentTransaction s of
               None \<Rightarrow> False
             | Some tx \<Rightarrow>
                 (case sender tx of
                    None \<Rightarrow> False
                  | Some sender' \<Rightarrow> sender' = publicKey' \<and> tokenId' = TokenId_default));
          nonce1 = (if isSameAsFeePayer' then nonce0 + 1 else nonce0)
      in case currentTransaction s of
           None \<Rightarrow> Some (Inl NoCurrentTransaction)
         | Some tx \<Rightarrow> do {
             nonce2 \<leftarrow> forEachPredecessor (heap s) (accountUpdates tx) update
               (\<lambda>otherUpdate n.
                  let shouldIncreaseNonce =
                        (publicKey (body (heap s otherUpdate)) = publicKey'
                         \<and> tokenId (body (heap s otherUpdate)) = tokenId'
                         \<and> incrementNonce (body (heap s otherUpdate)))
                  in if shouldIncreaseNonce then n + 1 else n)
               nonce1;
             Some (case UInt32_from nonce2 of
                     Inl e \<Rightarrow> Inl e
                   | Inr nonce' \<Rightarrow> Inr \<lparr>nonce = nonce', isSameAsFeePayer = isSameAsFeePayer'\<rparr>)
           })"

section \<open>addMissingSignatures\<close>

text \<open>
  \<^verbatim>\<open>PrivateKey.toPublicKey\<close>, \<^verbatim>\<open>Ledger.transactionCommitments\<close> (applied to the JSON of the
  command, which is read off the objects in the store) and \<^verbatim>\<open>Ledger.signFieldElement\<close>
  are parameters.
\<close>

record ZkappCommand =
  feePayer :: FeePayerUnsigned
  cmd_accountUpdates :: "ref list"
  memo :: string

record ZkappCommandSigned =
  signed_feePayer :: FeePayer
  signed_accountUpdates :: "ref list"
  signed_memo :: string

record Commitments =
  commitment :: field
  fullCommitment :: field

definition addFeePayerSignature ::
  "(private_key \<Rightarrow> public_key) \<Rightarrow> (field \<Rightarrow> private_key \<Rightarrow> string) \<Rightarrow> Commitments
   \<Rightarrow> private_key list \<Rightarrow> FeePayerUnsigned \<Rightarrow> error + FeePayer" where
  "addFeePayerSignature toPublicKey signFieldElement c additionalKeys accountUpdate =
     (let additionalPublicKeys = map toPublicKey additionalKeys;
          body' = fp_body accountUpdate;
          authorization' = fp_authorization accountUpdate
      in case fp_lazyAuthorization accountUpdate of
           None \<Rightarrow> Inr \<lparr>fp_body = body', fp_authorization = authorization'\<rparr>
         | Some privateKey \<Rightarrow>
             (case (case privateKey of
                      Some k \<Rightarrow> Inr k
                    | None \<Rightarrow>
                        (case findIndex (\<lambda>pk. pk = fp_publicKey (fp_body accountUpdate)) additionalPublicKeys of
                           None \<Rightarrow> Inl (MissingFeePayerKey (fp_publicKey (fp_body accountUpdate)))
                         | Some i \<Rightarrow> Inr (additionalKeys ! i))) of
                Inl e \<Rightarrow> Inl e
              | Inr k \<Rightarrow> Inr \<lparr>fp_body = body', fp_authorization = signFieldElement (fullCommitment c) k\<rparr>))"

definition addSignature ::
  "(private_key \<Rightarrow> public_key) \<Rightarrow> (field \<Rightarrow> private_key \<Rightarrow> string) \<Rightarrow> Commitments
   \<Rightarrow> private_key list \<Rightarrow> State \<Rightarrow> ref \<Rightarrow> (error + State \<times> ref) option" where
  "addSignature toPublicKey signFieldElement c additionalKeys s accountUpdate0 = do {
     (s1, accountUpdate) \<leftarrow> clone s accountUpdate0;
     let additionalPublicKeys = map toPublicKey additionalKeys;
     case lazyAuthorization (heap s1 accountUpdate) of
       Some (LazySignature privateKey) \<Rightarrow>
         (case (case privateKey of
                  Some k \<Rightarrow> Inr k
                | None \<Rightarrow>
                    (case findIndex (\<lambda>pk. pk = publicKey (body (heap s1 accountUpdate))) additionalPublicKeys of
                       None \<Rightarrow> Inl (MissingKey (publicKey (body (heap s1 accountUpdate))))
                     | Some i \<Rightarrow> Inr (additionalKeys ! i))) of
            Inl e \<Rightarrow> Some (Inl e)
          | Inr k \<Rightarrow>
              (let transactionCommitment =
                     (if useFullCommitment (body (heap s1 accountUpdate)) then fullCommitment c
                      else commitment c);
                   signature' = signFieldElement transactionCommitment k
               in Some (Inr (s1\<lparr>heap := setSignature (heap s1) accountUpdate signature'\<rparr>, accountUpdate))))
     | _ \<Rightarrow> Some (Inr (s1, accountUpdate))
   }"

fun addSignatures ::
  "(private_key \<Rightarrow> public_key) \<Rightarrow> (field \<Rightarrow> private_key \<Rightarrow> string) \<Rightarrow> Commitments
   \<Rightarrow> private_key list \<Rightarrow> State \<Rightarrow> ref list \<Rightarrow> (error + State \<times> ref list) option" where
  "addSignatures toPublicKey signFieldElement c additionalKeys s [] = Some (Inr (s, []))"
| "addSignatures toPublicKey signFieldElement c additionalKeys s (accountUpdate # rest) =
     (case addSignature toPublicKey signFieldElement c additionalKeys s accountUpdate of
        None \<Rightarrow> None
      | Some (Inl e) \<Rightarrow> Some (Inl e)
      | Some (Inr (s1, signed)) \<Rightarrow>
          (case addSignatures toPublicKey signFieldElement c additionalKeys s1 rest of
             None \<Rightarrow> None
           | Some (Inl e) \<Rightarrow> Some (Inl e)
           | Some (Inr (s2, signedRest)) \<Rightarrow> Some (Inr (s2, signed # signedRest))))"

definition addMissingSignatures ::
  "(private_key \<Rightarrow> public_key) \<Rightarrow> (heap \<Rightarrow> ZkappCommand \<Rightarrow> Commitments)
   \<Rightarrow> (field \<Rightarrow> private_key \<Rightarrow> string) \<Rightarrow> State \<Rightarrow> ZkappCommand \<Rightarrow> private_key list
   \<Rightarrow> (error + State \<times> ZkappCommandSigned) option" where
  "addMissingSignatures toPublicKey transactionCommitments signFieldElement s zkappCommand additionalKeys =
     (let c = transactionCommitments (heap s) zkappCommand in
      case addFeePayerSignature toPublicKey signFieldElement c additionalKeys (feePayer zkappCommand) of
        Inl e \<Rightarrow> Some (Inl e)
      | Inr feePayer' \<Rightarrow>
          (case addSignatures toPublicKey signFieldElement c additionalKeys s (cmd_accountUpdates zkappCommand) of
             None \<Rightarrow> None
           | Some (Inl e) \<Rightarrow> Some (Inl e)
           | Some (Inr (s1, accountUpdates')) \<Rightarrow>
               Some (Inr (s1, \<lparr>signed_feePayer = feePayer', signed_accountUpdates = accountUpdates',
                               signed_memo = memo zkappCommand\<rparr>))))"

section \<open>Forests in the store\<close>

text \<open>
  A forest of account updates is a list of root references whose children lists unfold
  into finite trees. \<^verbatim>\<open>is_tree h t\<close> says that the store \<^verbatim>\<open>h\<close> holds the tree \<^verbatim>\<open>t\<close>
  of references: the children list of every node is the list of the roots of its subtrees.
  \<^verbatim>\<open>walk\<close> lists the nodes of a tree in depth-first pre-order, each with the list of its
  ancestors, outermost first; the length of that list is the ancestor count of the node.
  When the references of \<^verbatim>\<open>nodes\<close> are distinct, no object occurs twice in the forest.
\<close>

datatype tree = Tree (root: ref) (kids: "tree list")

fun is_tree :: "heap \<Rightarrow> tree \<Rightarrow> bool" where
  "is_tree h (Tree r ks) \<longleftrightarrow>
     children_accountUpdates (h r) = map root ks \<and> (\<forall>k \<in> set ks. is_tree h k)"

definition is_forest :: "heap \<Rightarrow> ref list \<Rightarrow> tree list \<Rightarrow> bool" where
  "is_forest h roots ts \<longleftrightarrow> roots = map root ts \<and> (\<forall>t \<in> set ts. is_tree h t)"

fun walk :: "ref list \<Rightarrow> tree \<Rightarrow> (ref \<times> ref list) list" where
  "walk anc (Tree r ks) = (r, anc) # concat (map (walk (anc @ [r])) ks)"

definition walks :: "tree list \<Rightarrow> (ref \<times> ref list) list" where
  "walks ts = concat (map (walk []) ts)"

definition nodes :: "tree list \<Rightarrow> ref list" where
  "nodes ts = map fst (walks ts)"

text \<open>
  A node is visible when neither it nor one of its ancestors is a dummy.
  \<^verbatim>\<open>dummy_count\<close> is the number of dummy nodes of a forest, and \<^verbatim>\<open>no_dummy_ancestor\<close>
  says that no node of the forest lies below a dummy node.
\<close>

definition visible :: "heap \<Rightarrow> ref \<times> ref list \<Rightarrow> bool" where
  "visible h = (\<lambda>(r, anc). \<forall>x \<in> set (r # anc). \<not> isDummy (h x))"

definition dummy_count :: "heap \<Rightarrow> tree list \<Rightarrow> nat" where
  "dummy_count h ts = length (filter (\<lambda>r. isDummy (h r)) (nodes ts))"

definition no_dummy_ancestor :: "heap \<Rightarrow> tree list \<Rightarrow> bool" where
  "no_dummy_ancestor h ts \<longleftrightarrow> (\<forall>(r, anc) \<in> set (walks ts). \<forall>a \<in> set anc. \<not> isDummy (h a))"

text \<open>No node that is not a dummy lies below a dummy.\<close>

definition no_hidden_node :: "heap \<Rightarrow> tree list \<Rightarrow> bool" where
  "no_hidden_node h ts \<longleftrightarrow>
     (\<forall>(r, anc) \<in> set (walks ts). \<not> isDummy (h r) \<longrightarrow> (\<forall>a \<in> set anc. \<not> isDummy (h a)))"

text \<open>
  The traversal of \<^verbatim>\<open>toFlatList\<close> written on trees: \<^verbatim>\<open>flat\<close> is the list it returns and
  \<^verbatim>\<open>mark\<close> the store it leaves. \<^verbatim>\<open>erase\<close> forgets the two fields that the traversals
  of the forest assign, \<^verbatim>\<open>callDepth\<close> and \<^verbatim>\<open>caller\<close>.
\<close>

fun flat :: "heap \<Rightarrow> ref list \<Rightarrow> tree \<Rightarrow> (ref \<times> ref list) list" where
  "flat h anc (Tree r ks) =
     (if isDummy (h r) then [] else (r, anc) # concat (map (flat h (anc @ [r])) ks))"

definition setDepth :: "nat \<Rightarrow> AccountUpdate \<Rightarrow> AccountUpdate" where
  "setDepth d a = a\<lparr>body := (body a)\<lparr>callDepth := d\<rparr>\<rparr>"

fun mark :: "ref list \<Rightarrow> tree \<Rightarrow> heap \<Rightarrow> heap" where
  "mark anc (Tree r ks) h =
     (if isDummy (h r) then h
      else fold (mark (anc @ [r])) ks (h(r := setDepth (length anc) (h r))))"

definition erase :: "AccountUpdate \<Rightarrow> AccountUpdate" where
  "erase a = a\<lparr>body := (body a)\<lparr>callDepth := 0, caller := 0\<rparr>\<rparr>"

definition flat_tree_ok :: "tree \<Rightarrow> bool" where
  "flat_tree_ok t \<longleftrightarrow> (\<forall>h anc rest. is_tree h t \<longrightarrow>
     toFlatList h (root t # rest) (length anc) =
       do { (h3, after) \<leftarrow> toFlatList (mark anc t h) rest (length anc);
            Some (h3, map fst (flat h anc t) @ after) })"

definition depth_ok :: "tree \<Rightarrow> bool" where
  "depth_ok t \<longleftrightarrow> (\<forall>h anc x a. distinct (map fst (walk anc t)) \<longrightarrow> (x, a) \<in> set (flat h anc t) \<longrightarrow>
     callDepth (body (mark anc t h x)) = length a)"

text \<open>
  \<^verbatim>\<open>preorder\<close> lists the nodes of a tree in pre-order, and \<^verbatim>\<open>predecessors\<close> are the nodes
  of a forest that come, in pre-order, strictly before the first node with the id of the
  given update.
\<close>

fun preorder :: "tree \<Rightarrow> ref list" where
  "preorder (Tree r ks) = r # concat (map preorder ks)"

definition predecessors :: "heap \<Rightarrow> tree list \<Rightarrow> ref \<Rightarrow> ref list" where
  "predecessors h ts update =
     takeWhile (\<lambda>otherUpdate. update_id (h otherUpdate) \<noteq> update_id (h update)) (nodes ts)"

definition forEach_tree_ok :: "heap \<Rightarrow> (ref \<Rightarrow> 's \<Rightarrow> 's) \<Rightarrow> tree \<Rightarrow> bool" where
  "forEach_tree_ok h callback t \<longleftrightarrow>
     (\<forall>rest v. forEach h (root t # rest) callback v = forEach h rest callback (fold callback (preorder t) v))"

text \<open>
  One step of the fold of \<^verbatim>\<open>hashChildrenBase\<close>, as the claim words it:
  \<^verbatim>\<open>nodeHash\<close> is the hash of the child with the hash of its children, the new
  \<^verbatim>\<open>stackHash\<close> conses it on the old one, and a dummy child leaves \<^verbatim>\<open>stackHash\<close> as it is.
  \<^verbatim>\<open>calls child\<close> stands for the value of \<^verbatim>\<open>hashChildren(child)\<close>.
\<close>

definition stack_step ::
  "hashWithPrefix \<Rightarrow> (AccountUpdate \<Rightarrow> field) \<Rightarrow> heap \<Rightarrow> (ref \<Rightarrow> field) \<Rightarrow> ref \<Rightarrow> field \<Rightarrow> field" where
  "stack_step H hash h calls child stackHash =
     (let nodeHash = H accountUpdateNode [hash (h child), calls child]
      in if isDummy (h child) then stackHash else H accountUpdateCons [nodeHash, stackHash])"

text \<open>
  \<^verbatim>\<open>parents_ok h p t\<close> says that the parent references agree with the tree: the root of
  \<^verbatim>\<open>t\<close> has parent \<^verbatim>\<open>p\<close> and every child of a node has that node as its parent.
  \<^verbatim>\<open>context_step\<close> is the child context that \<^verbatim>\<open>addCallers\<close> derives at a node, and
  \<^verbatim>\<open>context_of\<close> the context reached from the root context along a list of ancestors.
  \<^verbatim>\<open>callers\<close> is the store that \<^verbatim>\<open>addCallers\<close> leaves, and \<^verbatim>\<open>chain\<close> a line of ancestors
  read off the parent references, innermost first.
\<close>

fun parents_ok :: "heap \<Rightarrow> ref option \<Rightarrow> tree \<Rightarrow> bool" where
  "parents_ok h p (Tree r ks) \<longleftrightarrow> parent (h r) = p \<and> (\<forall>k \<in> set ks. parents_ok h (Some r) k)"

definition context_step :: "(public_key \<Rightarrow> field \<Rightarrow> field) \<Rightarrow> AccountUpdate \<Rightarrow> CallerContext \<Rightarrow> CallerContext" where
  "context_step getId a context =
     \<lparr>ctx_self = (if isDelegateCall a then ctx_self context
                   else getId (publicKey (body a)) (tokenId (body a))),
      ctx_caller = (if isDelegateCall a then ctx_caller context else ctx_self context)\<rparr>"

definition context_of :: "(public_key \<Rightarrow> field \<Rightarrow> field) \<Rightarrow> heap \<Rightarrow> ref list \<Rightarrow> CallerContext" where
  "context_of getId h anc = fold (\<lambda>r. context_step getId (h r)) anc rootContext"

definition setCaller :: "field \<Rightarrow> AccountUpdate \<Rightarrow> AccountUpdate" where
  "setCaller c a = a\<lparr>body := (body a)\<lparr>caller := c\<rparr>\<rparr>"

fun callers :: "(public_key \<Rightarrow> field \<Rightarrow> field) \<Rightarrow> ref list \<Rightarrow> tree \<Rightarrow> heap \<Rightarrow> heap" where
  "callers getId anc (Tree r ks) h =
     fold (callers getId (anc @ [r])) ks
       (h(r := setCaller (ctx_caller (context_step getId (h r) (context_of getId h anc))) (h r)))"

fun chain :: "heap \<Rightarrow> ref option \<Rightarrow> ref list \<Rightarrow> bool" where
  "chain h p [] \<longleftrightarrow> p = None"
| "chain h p (a # up) \<longleftrightarrow> p = Some a \<and> chain h (parent (h a)) up"

definition callers_tree_ok :: "(public_key \<Rightarrow> field \<Rightarrow> field) \<Rightarrow> tree \<Rightarrow> bool" where
  "callers_tree_ok getId t \<longleftrightarrow> (\<forall>h anc rest. is_tree h t \<longrightarrow>
     addCallers getId h (root t # rest) (context_of getId h anc) =
       do { (h3, after) \<leftarrow> addCallers getId (callers getId anc t h) rest (context_of getId h anc);
            Some (h3, map (\<lambda>(r, a). (r, context_of getId h a)) (walk anc t) @ after) })"

definition caller_ok :: "(public_key \<Rightarrow> field \<Rightarrow> field) \<Rightarrow> tree \<Rightarrow> bool" where
  "caller_ok getId t \<longleftrightarrow> (\<forall>h anc x a. distinct (map fst (walk anc t)) \<longrightarrow> (x, a) \<in> set (walk anc t) \<longrightarrow>
     caller (body (callers getId anc t h x)) = ctx_caller (context_step getId (h x) (context_of getId h a)))"

text \<open>
  \<^verbatim>\<open>clone\<close> written on trees: \<^verbatim>\<open>clone_tree\<close> is the state it leaves with the reference of
  the clone, and \<^verbatim>\<open>clone_forest\<close> what \<^verbatim>\<open>map(AccountUpdate.clone)\<close> gives on the roots of a
  forest. \<^verbatim>\<open>frame s s'\<close> says that \<^verbatim>\<open>s'\<close> has the objects of \<^verbatim>\<open>s\<close> unchanged, possibly
  with new objects after them, and the same current transaction.
\<close>

fun clone_tree :: "tree \<Rightarrow> State \<Rightarrow> State \<times> ref"
  and clone_forest :: "tree list \<Rightarrow> State \<Rightarrow> State \<times> ref list" where
  "clone_tree (Tree r ks) s =
     (let (s1, cloned) = clone_begin s r;
          (s2, clonedChildren) = clone_forest ks s1
      in (clone_finish s2 r cloned clonedChildren, cloned))"
| "clone_forest [] s = (s, [])"
| "clone_forest (t # ts) s =
     (let (s1, cloned) = clone_tree t s;
          (s2, clonedRest) = clone_forest ts s1
      in (s2, cloned # clonedRest))"

definition frame :: "State \<Rightarrow> State \<Rightarrow> bool" where
  "frame s s' \<longleftrightarrow>
     allocated s \<le> allocated s' \<and> (\<forall>r < allocated s. heap s' r = heap s r)
     \<and> currentTransaction s' = currentTransaction s"

definition clone_tree_ok :: "tree \<Rightarrow> bool" where
  "clone_tree_ok t \<longleftrightarrow> (\<forall>s rest. is_tree (heap s) t \<longrightarrow> (\<forall>r \<in> set (preorder t). r < allocated s) \<longrightarrow>
     clone_map s (root t # rest) =
       do { (s4, clonedRest) \<leftarrow> clone_map (fst (clone_tree t s)) rest;
            Some (s4, snd (clone_tree t s) # clonedRest) })"

text \<open>
  What \<^verbatim>\<open>addMissingSignatures\<close> is to do, in the words of the claim. \<^verbatim>\<open>resolve_key\<close> is the
  explicit key of the intent or else the first additional key whose public key matches.
  \<^verbatim>\<open>signature_for\<close> is the signature an update gets: none without a lazy signature, the
  missing-key error naming the public key when no key resolves, and else the signature, with
  the resolved key, of the full commitment if \<^verbatim>\<open>useFullCommitment\<close> is set and of the
  partial one otherwise. \<^verbatim>\<open>feePayer_signed\<close> is the fee payer with the signature of the
  full commitment. \<^verbatim>\<open>signed_clone s s' g u c\<close> says that \<^verbatim>\<open>c\<close> is an object created after
  \<^verbatim>\<open>s\<close> that agrees in \<^verbatim>\<open>s'\<close> with \<^verbatim>\<open>u\<close> in \<^verbatim>\<open>s\<close>, finalized with the signature \<^verbatim>\<open>g\<close> if
  there is one, in every field but the children, of which it has as many.
\<close>

definition resolve_key ::
  "(private_key \<Rightarrow> public_key) \<Rightarrow> private_key list \<Rightarrow> public_key \<Rightarrow> private_key option
   \<Rightarrow> private_key option" where
  "resolve_key toPublicKey additionalKeys publicKey' privateKey =
     (case privateKey of
        Some k \<Rightarrow> Some k
      | None \<Rightarrow> find (\<lambda>k. toPublicKey k = publicKey') additionalKeys)"

definition signature_for ::
  "(private_key \<Rightarrow> public_key) \<Rightarrow> (field \<Rightarrow> private_key \<Rightarrow> string) \<Rightarrow> Commitments
   \<Rightarrow> private_key list \<Rightarrow> AccountUpdate \<Rightarrow> error + string option" where
  "signature_for toPublicKey signFieldElement c additionalKeys a =
     (case lazyAuthorization a of
        Some (LazySignature privateKey) \<Rightarrow>
          (case resolve_key toPublicKey additionalKeys (publicKey (body a)) privateKey of
             None \<Rightarrow> Inl (MissingKey (publicKey (body a)))
           | Some k \<Rightarrow>
               Inr (Some (signFieldElement
                            (if useFullCommitment (body a) then fullCommitment c else commitment c) k)))
      | _ \<Rightarrow> Inr None)"

definition with_signature :: "string option \<Rightarrow> AccountUpdate \<Rightarrow> AccountUpdate" where
  "with_signature g a =
     (case g of
        None \<Rightarrow> a
      | Some signature' \<Rightarrow>
          a\<lparr>authorization := \<lparr>control_proof = None, control_signature = Some signature'\<rparr>,
            lazyAuthorization := None\<rparr>)"

definition feePayer_signed ::
  "(private_key \<Rightarrow> public_key) \<Rightarrow> (field \<Rightarrow> private_key \<Rightarrow> string) \<Rightarrow> Commitments
   \<Rightarrow> private_key list \<Rightarrow> FeePayerUnsigned \<Rightarrow> error + FeePayer" where
  "feePayer_signed toPublicKey signFieldElement c additionalKeys feePayer' =
     (case fp_lazyAuthorization feePayer' of
        None \<Rightarrow> Inr \<lparr>fp_body = fp_body feePayer', fp_authorization = fp_authorization feePayer'\<rparr>
      | Some privateKey \<Rightarrow>
          (case resolve_key toPublicKey additionalKeys (fp_publicKey (fp_body feePayer')) privateKey of
             None \<Rightarrow> Inl (MissingFeePayerKey (fp_publicKey (fp_body feePayer')))
           | Some k \<Rightarrow>
               Inr \<lparr>fp_body = fp_body feePayer',
                    fp_authorization = signFieldElement (fullCommitment c) k\<rparr>))"

definition signed_clone :: "State \<Rightarrow> State \<Rightarrow> string option \<Rightarrow> ref \<Rightarrow> ref \<Rightarrow> bool" where
  "signed_clone s s' g u c \<longleftrightarrow>
     allocated s \<le> c \<and> c < allocated s'
     \<and> (heap s' c)\<lparr>children_accountUpdates := []\<rparr>
         = (with_signature g (heap s u))\<lparr>children_accountUpdates := []\<rparr>
     \<and> length (children_accountUpdates (heap s' c)) = length (children_accountUpdates (heap s u))"

definition sign_tree :: "string option \<Rightarrow> tree \<Rightarrow> State \<Rightarrow> State" where
  "sign_tree g t s =
     (case g of
        None \<Rightarrow> fst (clone_tree t s)
      | Some signature' \<Rightarrow>
          (fst (clone_tree t s))\<lparr>heap := setSignature (heap (fst (clone_tree t s))) (allocated s) signature'\<rparr>)"

text \<open>
  An authorization is finalized when the \<^verbatim>\<open>Control\<close> has a proof or a signature;
  \<^verbatim>\<open>exactly_one_authorization\<close> says that either the authorization is finalized or a
  lazy authorization is set, and not both.
\<close>

definition finalized :: "AccountUpdate \<Rightarrow> bool" where
  "finalized a \<longleftrightarrow>
     control_proof (authorization a) \<noteq> None \<or> control_signature (authorization a) \<noteq> None"

definition exactly_one_authorization :: "AccountUpdate \<Rightarrow> bool" where
  "exactly_one_authorization a \<longleftrightarrow> finalized a \<noteq> (lazyAuthorization a \<noteq> None)"

subsection \<open>Example stores\<close>

definition object :: "number \<Rightarrow> public_key \<Rightarrow> ref list \<Rightarrow> ref option \<Rightarrow> AccountUpdate" where
  "object i publicKey' children parent' =
     \<lparr>update_id = i, label = [], body = keepAll publicKey', isDelegateCall = False,
      authorization = emptyControl, lazyAuthorization = None, children_callsType = CallsNone,
      children_accountUpdates = children, parent = parent', isSelf = False\<rparr>"

text \<open>A dummy root with one child that is not a dummy.\<close>

definition dummy_parent_heap :: heap where
  "dummy_parent_heap =
     (\<lambda>_. object 0 PublicKey_empty [] None)
       (0 := object 10 PublicKey_empty [1] None,
        1 := object 11 (PublicKey 5) [] (Some 0))"

definition dummy_parent_forest :: "tree list" where
  "dummy_parent_forest = [Tree 0 [Tree 1 []]]"

text \<open>Two roots; the first has a child with a child of its own, and a dummy child.\<close>

definition flat_heap :: heap where
  "flat_heap =
     (\<lambda>_. object 0 PublicKey_empty [] None)
       (0 := object 10 (PublicKey 5) [1, 2] None,
        1 := object 11 (PublicKey 6) [3] (Some 0),
        2 := object 12 PublicKey_empty [] (Some 0),
        3 := object 13 (PublicKey 5) [] (Some 1),
        4 := object 14 (PublicKey 7) [] None)"

definition flat_forest :: "tree list" where
  "flat_forest = [Tree 0 [Tree 1 [Tree 3 []], Tree 2 []], Tree 4 []]"

text \<open>A state in which no object has been created and no transaction is open.\<close>

definition initial_state :: State where
  "initial_state =
     \<lparr>heap = (\<lambda>_. object 0 PublicKey_empty [] None), allocated = 0, random = (\<lambda>n. 100 + n),
      draws = 0, currentTransaction = None\<rparr>"


text \<open>
  The nonce the specification describes for an account update of a transaction: the
  on-chain nonce of its account, one more when the sender of the transaction is this
  account on the default token, and one more for every predecessor on the same account
  and token that increments the nonce.
\<close>

definition counted_nonce ::
  "(public_key \<Rightarrow> field option \<Rightarrow> nat) \<Rightarrow> heap \<Rightarrow> CurrentTransaction \<Rightarrow> tree list \<Rightarrow> ref \<Rightarrow> nat" where
  "counted_nonce accountNonce h tx ts update =
     accountNonce (publicKey (body (h update))) (Some (tokenId (body (h update))))
     + (if sender tx = Some (publicKey (body (h update)))
           \<and> tokenId (body (h update)) = TokenId_default then 1 else 0)
     + length (filter (\<lambda>other. publicKey (body (h other)) = publicKey (body (h update))
                        \<and> tokenId (body (h other)) = tokenId (body (h update))
                        \<and> incrementNonce (body (h other)))
                 (predecessors h ts update))"

text \<open>
  A transaction sent by the owner of key 5, with three roots; the updates 0 and 2 increment
  the nonce, and all four updates are on that account and the default token.
\<close>

definition incrementing :: "AccountUpdate \<Rightarrow> AccountUpdate" where
  "incrementing a = a\<lparr>body := (body a)\<lparr>incrementNonce := True\<rparr>\<rparr>"

definition nonce_state :: State where
  "nonce_state =
     \<lparr>heap = (\<lambda>_. object 0 PublicKey_empty [] None)
               (0 := incrementing (object 10 (PublicKey 5) [1] None),
                1 := object 11 (PublicKey 5) [] (Some 0),
                2 := incrementing (object 12 (PublicKey 5) [] None),
                3 := object 13 (PublicKey 5) [] None),
      allocated = 4, random = (\<lambda>n. 100 + n), draws = 4,
      currentTransaction = Some \<lparr>sender = Some (PublicKey 5), accountUpdates = [0, 2, 3]\<rparr>\<rparr>"

definition nonce_forest :: "tree list" where
  "nonce_forest = [Tree 0 [Tree 1 []], Tree 2 [], Tree 3 []]"


text \<open>A hash function to compute with.\<close>

definition toy_hash :: hashWithPrefix where
  "toy_hash p xs = fold (\<lambda>x acc. 2 * acc + x + 1) xs (case p of accountUpdateNode \<Rightarrow> 1 | accountUpdateCons \<Rightarrow> 2)"


text \<open>A token id function to compute with, and the example store with a delegate call at node 1.\<close>

definition toy_getId :: "public_key \<Rightarrow> field \<Rightarrow> field" where
  "toy_getId tokenOwner parentTokenId = (case tokenOwner of PublicKey n \<Rightarrow> 10 * n + parentTokenId)"

definition delegate_heap :: heap where
  "delegate_heap = flat_heap(1 := (object 11 (PublicKey 6) [3] (Some 0))\<lparr>isDelegateCall := True\<rparr>)"


text \<open>The example store as a state, with the two roots in the current transaction.\<close>

definition flat_state :: State where
  "flat_state =
     \<lparr>heap = flat_heap, allocated = 5, random = (\<lambda>n. 100 + n), draws = 5,
      currentTransaction = Some \<lparr>sender = None, accountUpdates = [0, 4]\<rparr>\<rparr>"


text \<open>
  A command to sign: keys, commitments and signatures to compute with, and a store in
  which update 0 (with child 1) and update 1 want a signature without naming a key, update
  2 wants one with key 9 on the full commitment, and update 3 wants none.
\<close>

definition toy_toPublicKey :: "private_key \<Rightarrow> public_key" where
  "toy_toPublicKey k = (case k of PrivateKey n \<Rightarrow> PublicKey n)"

definition toy_sign :: "field \<Rightarrow> private_key \<Rightarrow> string" where
  "toy_sign f k =
     (if f = 2 then ''full'' else ''partial'')
     @ (if k = PrivateKey 5 then ''-k5'' else if k = PrivateKey 6 then ''-k6'' else ''-k9'')"

definition toy_commitments :: "heap \<Rightarrow> ZkappCommand \<Rightarrow> Commitments" where
  "toy_commitments h zkappCommand = \<lparr>commitment = 1, fullCommitment = 2\<rparr>"

definition lazily :: "LazyAuthorization \<Rightarrow> bool \<Rightarrow> AccountUpdate \<Rightarrow> AccountUpdate" where
  "lazily la full a = a\<lparr>body := (body a)\<lparr>useFullCommitment := full\<rparr>, lazyAuthorization := Some la\<rparr>"

definition sign_state :: State where
  "sign_state =
     \<lparr>heap = (\<lambda>_. object 0 PublicKey_empty [] None)
               (0 := lazily (LazySignature None) False (object 10 (PublicKey 5) [1] None),
                1 := lazily (LazySignature None) False (object 11 (PublicKey 6) [] (Some 0)),
                2 := lazily (LazySignature (Some (PrivateKey 9))) True (object 12 (PublicKey 6) [] None),
                3 := lazily LazyNone False (object 13 (PublicKey 7) [] None)),
      allocated = 4, random = (\<lambda>n. 100 + n), draws = 4, currentTransaction = None\<rparr>"

definition sign_command :: "ref list \<Rightarrow> private_key option \<Rightarrow> ZkappCommand" where
  "sign_command updates feePayerKey =
     \<lparr>feePayer = \<lparr>fp_body = \<lparr>fp_publicKey = PublicKey 5, fp_nonce = 0, fp_fee = 0, fp_validUntil = None\<rparr>,
                   fp_authorization = ''dummy'', fp_lazyAuthorization = Some feePayerKey\<rparr>,
      cmd_accountUpdates = updates, memo = ''memo''\<rparr>"

definition sign_forest :: "tree list" where
  "sign_forest = [Tree 0 [Tree 1 []], Tree 1 [], Tree 2 [], Tree 3 []]"

definition sign_forest' :: "tree list" where
  "sign_forest' = [Tree 2 [], Tree 0 [Tree 1 []], Tree 3 []]"


section \<open>Owning lists\<close>

text \<open>
  The lists that can own an account update: the top-level list of the current transaction,
  and the \<^verbatim>\<open>children.accountUpdates\<close> of an account update. \<^verbatim>\<open>holds\<close> reads a list (the
  top-level list is empty outside a transaction), and \<^verbatim>\<open>owner_of\<close> is the list that the
  \<^verbatim>\<open>parent\<close> reference of an account update names, the one \<^verbatim>\<open>unlink\<close> searches.
\<close>

datatype owner = TopLevel | ChildrenOf ref


definition owner_of :: "AccountUpdate \<Rightarrow> owner" where
  "owner_of a = (case parent a of None \<Rightarrow> TopLevel | Some p \<Rightarrow> ChildrenOf p)"



text \<open>Writing a list.\<close>

definition put :: "State \<Rightarrow> owner \<Rightarrow> ref list \<Rightarrow> State" where
  "put s w' l =
     (case w' of
        ChildrenOf p \<Rightarrow> s\<lparr>heap := modify p (\<lambda>a. a\<lparr>children_accountUpdates := l\<rparr>) (heap s)\<rparr>
      | TopLevel \<Rightarrow>
          (case currentTransaction s of
             None \<Rightarrow> s
           | Some tx \<Rightarrow> s\<lparr>currentTransaction := Some (tx\<lparr>accountUpdates := l\<rparr>)\<rparr>))"



section \<open>Permissions.fromString\<close>

text \<open>
  C8: \<^verbatim>\<open>Permissions.fromString\<close> returns the corresponding permission for the five strings
  \<^verbatim>\<open>None\<close>, \<^verbatim>\<open>Either\<close>, \<^verbatim>\<open>Proof\<close>, \<^verbatim>\<open>Signature\<close> and \<^verbatim>\<open>Impossible\<close>, returns a
  permission for no other string, and throws for every other string.
\<close>

theorem fromString_recognized:
  "fromString ''None'' = Inr none
   \<and> fromString ''Either'' = Inr proofOrSignature
   \<and> fromString ''Proof'' = Inr proof_permission
   \<and> fromString ''Signature'' = Inr signature_permission
   \<and> fromString ''Impossible'' = Inr impossible
   \<and> ((\<exists>p. fromString permission = Inr p)
        \<longleftrightarrow> permission \<in> {''None'', ''Either'', ''Proof'', ''Signature'', ''Impossible''})
   \<and> (permission \<notin> {''None'', ''Either'', ''Proof'', ''Signature'', ''Impossible''}
        \<longrightarrow> fromString permission = Inl (InvalidPermission permission))"
  by (simp add: fromString_def)

text \<open>C8 at a string that is not recognized.\<close>

theorem fromString_recognized_witness:
  "fromString ''Both'' = Inl (InvalidPermission ''Both'') \<and> \<not> (\<exists>p. fromString ''Both'' = Inr p)"
  using fromString_recognized [of "''Both''"] by simp


section \<open>Authorization\<close>

text \<open>
  C5, as stated, at an update fresh from \<^verbatim>\<open>defaultAccountUpdate\<close>: its authorization is
  \<^verbatim>\<open>{}\<close> and its lazy authorization is undefined, so neither holds (and \<^verbatim>\<open>hasAny\<close> is false).
\<close>

theorem constructor_neither_counterexample:
  "\<not> exactly_one_authorization
       (heap (fst (defaultAccountUpdate initial_state (PublicKey 5) None))
             (snd (defaultAccountUpdate initial_state (PublicKey 5) None)))
   \<and> \<not> hasAny
       (heap (fst (defaultAccountUpdate initial_state (PublicKey 5) None))
             (snd (defaultAccountUpdate initial_state (PublicKey 5) None)))"
  by (simp add: defaultAccountUpdate_def new_AccountUpdate_def initial_state_def Let_def
      exactly_one_authorization_def finalized_def emptyControl_def hasAny_def)

text \<open>
  C5, amended: after each operation of \<^verbatim>\<open>Authorization\<close>, whatever the update held
  before, exactly one of the two holds: \<^verbatim>\<open>setSignature\<close> and \<^verbatim>\<open>setProof\<close> store the final
  authorization and clear \<^verbatim>\<open>lazyAuthorization\<close>; \<^verbatim>\<open>setLazySignature\<close>, \<^verbatim>\<open>setLazyProof\<close> and
  \<^verbatim>\<open>setLazyNone\<close> reset \<^verbatim>\<open>authorization\<close> to \<^verbatim>\<open>{}\<close> and set the lazy authorization.
\<close>

theorem authorization_setters_exclusive:
  "exactly_one_authorization (setSignature h u signature' u)
   \<and> authorization (setSignature h u signature' u) = \<lparr>control_proof = None, control_signature = Some signature'\<rparr>
   \<and> lazyAuthorization (setSignature h u signature' u) = None
   \<and> exactly_one_authorization (setProof h u proof' u)
   \<and> authorization (setProof h u proof' u) = \<lparr>control_proof = Some proof', control_signature = None\<rparr>
   \<and> lazyAuthorization (setProof h u proof' u) = None
   \<and> exactly_one_authorization (setLazySignature h u privateKey u)
   \<and> authorization (setLazySignature h u privateKey u) = emptyControl
   \<and> lazyAuthorization (setLazySignature h u privateKey u) = Some (LazySignature privateKey)
   \<and> exactly_one_authorization (setLazyProof h u lazyProof u)
   \<and> authorization (setLazyProof h u lazyProof u) = emptyControl
   \<and> lazyAuthorization (setLazyProof h u lazyProof u) = Some (LazyProof lazyProof)
   \<and> exactly_one_authorization (setLazyNone h u u)
   \<and> authorization (setLazyNone h u u) = emptyControl
   \<and> lazyAuthorization (setLazyNone h u u) = Some LazyNone"
  by (simp add: setSignature_def setProof_def setLazySignature_def setLazyProof_def setLazyNone_def
      modify_def exactly_one_authorization_def finalized_def emptyControl_def)

text \<open>The amended C5 on a node of the example store, through successive operations.\<close>

theorem authorization_setters_exclusive_witness:
  "exactly_one_authorization (setSignature flat_heap 0 ''sig'' 0)
   \<and> exactly_one_authorization (setLazyNone (setSignature flat_heap 0 ''sig'') 0 0)
   \<and> lazyAuthorization (setProof (setLazySignature flat_heap 0 None) 0 ''p'' 0) = None"
  using authorization_setters_exclusive [of flat_heap 0 "''sig''"]
    authorization_setters_exclusive [of "setSignature flat_heap 0 ''sig''" 0]
    authorization_setters_exclusive [of "setLazySignature flat_heap 0 None" 0 _ "''p''"]
  by simp


section \<open>Flattening\<close>

lemma toFlatList_Nil [simp]: "toFlatList h [] d = Some (h, [])"
  by (subst toFlatList.simps) simp

lemma toFlatList_Cons:
  "toFlatList h (a # rest) d =
     (if isDummy (h a) then toFlatList h rest d
      else do {
        (h2, below) \<leftarrow> toFlatList (h(a := setDepth d (h a))) (children_accountUpdates (h a)) (Suc d);
        (h3, after) \<leftarrow> toFlatList h2 rest d;
        Some (h3, a # below @ after) })"
  by (subst toFlatList.simps) (simp add: setDepth_def Let_def modify_def)

lemma erase_setDepth [simp]: "erase (setDepth d a) = erase a"
  by (simp add: erase_def setDepth_def)

lemma isDummy_erase: "isDummy a = isDummy (erase a)"
  by (simp add: erase_def setDepth_def isDummy_def)

lemma children_erase: "children_accountUpdates a = children_accountUpdates (erase a)"
  by (simp add: erase_def setDepth_def)

lemma erase_fold_mark:
  "(\<And>k h. k \<in> set ks \<Longrightarrow> erase (mark anc k h x) = erase (h x)) \<Longrightarrow>
   erase (fold (mark anc) ks h x) = erase (h x)"
  by (induction ks arbitrary: h) simp_all

lemma erase_mark: "erase (mark anc t h x) = erase (h x)"
proof (induction anc t h rule: mark.induct)
  case (1 anc r ks h)
  show ?case
  proof (cases "isDummy (h r)")
    case True
    then show ?thesis by simp
  next
    case False
    have "erase (fold (mark (anc @ [r])) ks (h(r := setDepth (length anc) (h r))) x)
          = erase ((h(r := setDepth (length anc) (h r))) x)"
      by (rule erase_fold_mark) (use 1 False in auto)
    then show ?thesis using False by simp
  qed
qed

lemma is_tree_cong: "\<forall>x. erase (h' x) = erase (h x) \<Longrightarrow> is_tree h' t = is_tree h t"
proof (induction t)
  case (Tree r ks)
  have "children_accountUpdates (h' r) = children_accountUpdates (h r)"
    using Tree.prems by (metis children_erase)
  then show ?case using Tree by auto
qed

lemma flat_cong: "\<forall>x. erase (h' x) = erase (h x) \<Longrightarrow> flat h' anc t = flat h anc t"
proof (induction t arbitrary: anc)
  case (Tree r ks)
  have "isDummy (h' r) = isDummy (h r)"
    using Tree.prems by (metis isDummy_erase)
  moreover have "map (flat h' (anc @ [r])) ks = map (flat h (anc @ [r])) ks"
    using Tree by simp
  ultimately show ?case by (simp only: flat.simps)
qed

lemma toFlatList_forest_aux:
  "\<forall>t \<in> set ts. flat_tree_ok t \<Longrightarrow> \<forall>t \<in> set ts. is_tree h t \<Longrightarrow>
   toFlatList h (map root ts) (length anc) =
     Some (fold (mark anc) ts h, map fst (concat (map (flat h anc) ts)))"
proof (induction ts arbitrary: h)
  case Nil
  then show ?case by simp
next
  case (Cons t ts)
  have e: "\<forall>x. erase (mark anc t h x) = erase (h x)" by (simp add: erase_mark)
  have "is_tree (mark anc t h) k = is_tree h k" for k
    using e by (rule is_tree_cong)
  then have "\<forall>t' \<in> set ts. is_tree (mark anc t h) t'"
    using Cons.prems(2) by simp
  then have "toFlatList (mark anc t h) (map root ts) (length anc) =
      Some (fold (mark anc) ts (mark anc t h), map fst (concat (map (flat (mark anc t h) anc) ts)))"
    using Cons.IH Cons.prems(1) by simp
  moreover have "flat (mark anc t h) anc k = flat h anc k" for k
    using e by (rule flat_cong)
  then have "map (flat (mark anc t h) anc) ts = map (flat h anc) ts"
    by simp
  moreover have "flat_tree_ok t" "is_tree h t" using Cons.prems by simp_all
  ultimately show ?case
    by (simp add: flat_tree_ok_def)
qed

lemma flat_tree_ok: "flat_tree_ok t"
proof (induction t)
  case (Tree r ks)
  show ?case unfolding flat_tree_ok_def
  proof (intro allI impI)
    fix h anc rest
    assume t: "is_tree h (Tree r ks)"
    show "toFlatList h (root (Tree r ks) # rest) (length anc) =
       do { (h3, after) \<leftarrow> toFlatList (mark anc (Tree r ks) h) rest (length anc);
            Some (h3, map fst (flat h anc (Tree r ks)) @ after) }"
    proof (cases "isDummy (h r)")
      case True
      then show ?thesis by (simp add: toFlatList_Cons)
    next
      case False
      let ?h1 = "h(r := setDepth (length anc) (h r))"
      have e: "\<forall>x. erase (?h1 x) = erase (h x)" by simp
      have "is_tree ?h1 k = is_tree h k" for k
        using e by (rule is_tree_cong)
      then have "\<forall>k \<in> set ks. is_tree ?h1 k" using t by simp
      then have "toFlatList ?h1 (map root ks) (length (anc @ [r])) =
          Some (fold (mark (anc @ [r])) ks ?h1, map fst (concat (map (flat ?h1 (anc @ [r])) ks)))"
        using toFlatList_forest_aux Tree by blast
      moreover have "flat ?h1 (anc @ [r]) k = flat h (anc @ [r]) k" for k
        using e by (rule flat_cong)
      then have "map (flat ?h1 (anc @ [r])) ks = map (flat h (anc @ [r])) ks"
        by simp
      ultimately show ?thesis using False t
        by (simp add: toFlatList_Cons)
    qed
  qed
qed

lemma toFlatList_forest:
  "\<forall>t \<in> set ts. is_tree h t \<Longrightarrow>
   toFlatList h (map root ts) (length anc) =
     Some (fold (mark anc) ts h, map fst (concat (map (flat h anc) ts)))"
  using toFlatList_forest_aux flat_tree_ok by blast

(* flat = filter visible walk *)

lemma walk_anc: "(x, a) \<in> set (walk anc t) \<Longrightarrow> set anc \<subseteq> set a"
proof (induction t arbitrary: anc)
  case (Tree r ks)
  then show ?case by fastforce
qed

lemma walk_root: "(x, a) \<in> set (walk anc t) \<Longrightarrow> root t \<in> set (x # a)"
proof (cases t)
  case (Tree r ks)
  assume "(x, a) \<in> set (walk anc t)"
  then consider "x = r" | k where "k \<in> set ks" "(x, a) \<in> set (walk (anc @ [r]) k)"
    using Tree by auto
  then show ?thesis
  proof cases
    case 1
    then show ?thesis using Tree by simp
  next
    case 2
    then have "set (anc @ [r]) \<subseteq> set a" using walk_anc by blast
    then show ?thesis using Tree by simp
  qed
qed

lemma flat_filter:
  "\<forall>x \<in> set anc. \<not> isDummy (h x) \<Longrightarrow> flat h anc t = filter (visible h) (walk anc t)"
proof (induction t arbitrary: anc)
  case (Tree r ks)
  show ?case
  proof (cases "isDummy (h r)")
    case True
    have "\<not> visible h p" if "p \<in> set (walk anc (Tree r ks))" for p
    proof -
      obtain x a where p: "p = (x, a)" by (cases p)
      then have "r \<in> set (x # a)" using that walk_root [of x a anc "Tree r ks"] by simp
      then show ?thesis using True p by (auto simp: visible_def)
    qed
    then have "filter (visible h) (walk anc (Tree r ks)) = []"
      by (simp only: filter_empty_conv) blast
    then show ?thesis using True by simp
  next
    case False
    then have "\<forall>x \<in> set (anc @ [r]). \<not> isDummy (h x)" using Tree.prems by simp
    then have "map (flat h (anc @ [r])) ks = map (\<lambda>k. filter (visible h) (walk (anc @ [r]) k)) ks"
      using Tree.IH by simp
    then have "concat (map (flat h (anc @ [r])) ks)
        = concat (map (\<lambda>k. filter (visible h) (walk (anc @ [r]) k)) ks)"
      by (rule arg_cong)
    then have "concat (map (flat h (anc @ [r])) ks) = filter (visible h) (concat (map (walk (anc @ [r])) ks))"
      by (simp only: filter_concat map_map comp_def)
    then show ?thesis using False Tree.prems by (simp add: visible_def)
  qed
qed

lemma flats_filter: "concat (map (flat h []) ts) = filter (visible h) (walks ts)"
proof -
  have "map (flat h []) ts = map (\<lambda>t. filter (visible h) (walk [] t)) ts"
    by (simp add: flat_filter)
  then have "concat (map (flat h []) ts) = concat (map (\<lambda>t. filter (visible h) (walk [] t)) ts)"
    by (rule arg_cong)
  then show ?thesis
    by (simp only: walks_def filter_concat map_map comp_def)
qed

lemma walk_fst: "map fst (walk anc t) = map fst (walk anc' t)"
proof (induction t arbitrary: anc anc')
  case (Tree r ks)
  have "map (\<lambda>k. map fst (walk (anc @ [r]) k)) ks = map (\<lambda>k. map fst (walk (anc' @ [r]) k)) ks"
    using Tree by simp
  then have "concat (map (\<lambda>k. map fst (walk (anc @ [r]) k)) ks)
      = concat (map (\<lambda>k. map fst (walk (anc' @ [r]) k)) ks)"
    by (rule arg_cong)
  then show ?case by (simp add: map_concat comp_def)
qed

lemma flat_subset: "p \<in> set (flat h anc t) \<Longrightarrow> p \<in> set (walk anc t)"
proof (induction t arbitrary: anc)
  case (Tree r ks)
  then show ?case by (auto split: if_splits)
qed

lemma fold_mark_outside:
  "(\<And>k h. k \<in> set ks \<Longrightarrow> mark anc k h x = h x) \<Longrightarrow> fold (mark anc) ks h x = h x"
  by (induction ks arbitrary: h) simp_all

lemma mark_outside: "x \<notin> fst ` set (walk anc t) \<Longrightarrow> mark anc t h x = h x"
proof (induction anc t h rule: mark.induct)
  case (1 anc r ks h)
  show ?case
  proof (cases "isDummy (h r)")
    case True
    then show ?thesis by simp
  next
    case False
    have x: "x \<noteq> r" and out: "\<And>k. k \<in> set ks \<Longrightarrow> x \<notin> fst ` set (walk (anc @ [r]) k)"
      using "1.prems" by auto
    have "fold (mark (anc @ [r])) ks (h(r := setDepth (length anc) (h r))) x
          = (h(r := setDepth (length anc) (h r))) x"
      by (rule fold_mark_outside) (use "1.IH" False out in blast)
    then show ?thesis using False x by simp
  qed
qed

lemma depth_forest:
  "\<forall>t \<in> set ts. depth_ok t \<Longrightarrow> distinct (concat (map (\<lambda>t. map fst (walk anc t)) ts)) \<Longrightarrow>
   (x, a) \<in> set (concat (map (flat h anc) ts)) \<Longrightarrow>
   callDepth (body (fold (mark anc) ts h x)) = length a"
proof (induction ts arbitrary: h)
  case Nil
  then show ?case by simp
next
  case (Cons t ts)
  have d: "distinct (map fst (walk anc t))"
    and ds: "distinct (concat (map (\<lambda>t. map fst (walk anc t)) ts))"
    and disj: "fst ` set (walk anc t) \<inter> (\<Union>k \<in> set ts. fst ` set (walk anc k)) = {}"
    using Cons.prems(2) by auto
  have e: "\<forall>y. erase (mark anc t h y) = erase (h y)" by (simp add: erase_mark)
  have fl: "flat (mark anc t h) anc k = flat h anc k" for k
    using e by (rule flat_cong)
  consider "(x, a) \<in> set (flat h anc t)" | "(x, a) \<in> set (concat (map (flat h anc) ts))"
    using Cons.prems(3) by auto
  then show ?case
  proof cases
    case 1
    then have "callDepth (body (mark anc t h x)) = length a"
      using Cons.prems(1) d by (simp add: depth_ok_def)
    moreover have "x \<in> fst ` set (walk anc t)"
      using 1 flat_subset by force
    then have "\<And>k. k \<in> set ts \<Longrightarrow> x \<notin> fst ` set (walk anc k)"
      using disj by blast
    then have "fold (mark anc) ts (mark anc t h) x = mark anc t h x"
      by (intro fold_mark_outside mark_outside)
    ultimately show ?thesis by simp
  next
    case 2
    then have "(x, a) \<in> set (concat (map (flat (mark anc t h) anc) ts))"
      using fl by simp
    then have "callDepth (body (fold (mark anc) ts (mark anc t h) x)) = length a"
      using Cons.IH Cons.prems(1) ds by simp
    then show ?thesis by simp
  qed
qed

lemma depth_ok: "depth_ok t"
proof (induction t)
  case (Tree r ks)
  show ?case unfolding depth_ok_def
  proof (intro allI impI)
    fix h anc x a
    assume d: "distinct (map fst (walk anc (Tree r ks)))"
      and m: "(x, a) \<in> set (flat h anc (Tree r ks))"
    let ?h1 = "h(r := setDepth (length anc) (h r))"
    have nd: "\<not> isDummy (h r)" using m by (auto split: if_splits)
    have e: "\<forall>y. erase (?h1 y) = erase (h y)" by simp
    have fl: "flat ?h1 (anc @ [r]) k = flat h (anc @ [r]) k" for k
      using e by (rule flat_cong)
    have r: "\<And>k. k \<in> set ks \<Longrightarrow> r \<notin> fst ` set (walk (anc @ [r]) k)"
      and ds: "distinct (concat (map (\<lambda>t. map fst (walk (anc @ [r]) t)) ks))"
      using d by (auto simp: map_concat comp_def)
    consider "(x, a) = (r, anc)" | "(x, a) \<in> set (concat (map (flat h (anc @ [r])) ks))"
      using m nd by auto
    then show "callDepth (body (mark anc (Tree r ks) h x)) = length a"
    proof cases
      case 1
      have "fold (mark (anc @ [r])) ks ?h1 r = ?h1 r"
        using r by (intro fold_mark_outside mark_outside)
      then show ?thesis using 1 nd by (simp add: setDepth_def)
    next
      case 2
      then have "(x, a) \<in> set (concat (map (flat ?h1 (anc @ [r])) ks))"
        using fl by simp
      then have "callDepth (body (fold (mark (anc @ [r])) ks ?h1 x)) = length a"
        using depth_forest Tree ds by blast
      then show ?thesis using nd by simp
    qed
  qed
qed

lemma marks_depth:
  assumes "distinct (nodes ts)" and "(x, a) \<in> set (filter (visible h) (walks ts))"
  shows "callDepth (body (fold (mark []) ts h x)) = length a"
proof -
  have "distinct (concat (map (\<lambda>t. map fst (walk [] t)) ts))"
    using assms(1) by (simp add: nodes_def walks_def map_concat comp_def)
  moreover have "(x, a) \<in> set (concat (map (flat h []) ts))"
    using assms(2) by (simp only: flats_filter)
  ultimately show ?thesis
    using depth_forest depth_ok by blast
qed

lemmas example_defs = object_def keepAll_def isDummy_def isEmpty_def PublicKey_empty_def
  is_forest_def nodes_def walks_def dummy_count_def visible_def

lemma visible_count:
  assumes "no_dummy_ancestor h ts"
  shows "length (filter (visible h) (walks ts)) = length (nodes ts) - dummy_count h ts"
proof -
  have "filter (visible h) (walks ts) = filter (\<lambda>p. \<not> isDummy (h (fst p))) (walks ts)"
    using assms by (intro filter_cong) (auto simp: visible_def no_dummy_ancestor_def)
  moreover have "length (filter (\<lambda>p. isDummy (h (fst p))) (walks ts))
      + length (filter (\<lambda>p. \<not> isDummy (h (fst p))) (walks ts)) = length (walks ts)"
    by (rule sum_length_filter_compl)
  moreover have "dummy_count h ts = length (filter (\<lambda>p. isDummy (h (fst p))) (walks ts))"
    by (simp add: dummy_count_def nodes_def filter_map comp_def)
  ultimately show ?thesis by (simp add: nodes_def)
qed

lemma length_filter_all: "length (filter P xs) = length xs \<longleftrightarrow> (\<forall>x \<in> set xs. P x)"
proof (induction xs)
  case Nil
  show ?case by simp
next
  case (Cons x xs)
  have "length (filter P xs) \<noteq> Suc (length xs)"
    by (metis Suc_n_not_le_n length_filter_le)
  then show ?case using Cons.IH by auto
qed

lemma visible_count_le:
  "length (filter (visible h) (walks ts)) \<le> length (nodes ts) - dummy_count h ts"
  "length (filter (visible h) (walks ts)) = length (nodes ts) - dummy_count h ts
     \<longleftrightarrow> no_hidden_node h ts"
proof -
  let ?Q = "\<lambda>p. \<not> isDummy (h (fst p))"
  have v: "filter (visible h) (walks ts) = filter (visible h) (filter ?Q (walks ts))"
    unfolding filter_filter by (intro filter_cong) (auto simp: visible_def)
  have "length (filter (\<lambda>p. isDummy (h (fst p))) (walks ts))
      + length (filter ?Q (walks ts)) = length (walks ts)"
    by (rule sum_length_filter_compl)
  moreover have "dummy_count h ts = length (filter (\<lambda>p. isDummy (h (fst p))) (walks ts))"
    by (simp add: dummy_count_def nodes_def filter_map comp_def)
  ultimately have n: "length (nodes ts) - dummy_count h ts = length (filter ?Q (walks ts))"
    by (simp add: nodes_def)
  show "length (filter (visible h) (walks ts)) \<le> length (nodes ts) - dummy_count h ts"
    unfolding n by (subst v) (rule length_filter_le)
  have "length (filter (visible h) (walks ts)) = length (filter ?Q (walks ts))
      \<longleftrightarrow> (\<forall>p \<in> set (filter ?Q (walks ts)). visible h p)"
    by (subst v) (rule length_filter_all)
  also have "\<dots> \<longleftrightarrow> no_hidden_node h ts"
    by (auto simp: no_hidden_node_def visible_def)
  finally show "length (filter (visible h) (walks ts)) = length (nodes ts) - dummy_count h ts
     \<longleftrightarrow> no_hidden_node h ts"
    unfolding n .
qed

lemma toFlatList_is_forest:
  assumes "is_forest h forest ts"
  shows "toFlatList h forest 0 = Some (fold (mark []) ts h, map fst (filter (visible h) (walks ts)))"
proof -
  have f: "forest = map root ts" and t: "\<forall>t \<in> set ts. is_tree h t"
    using assms by (simp_all add: is_forest_def)
  have "toFlatList h (map root ts) (length ([] :: ref list))
      = Some (fold (mark []) ts h, map fst (concat (map (flat h []) ts)))"
    using t by (rule toFlatList_forest)
  then show ?thesis
    using f by (simp add: flats_filter)
qed

text \<open>
  C1, as stated, at a dummy root with one child that is not a dummy: the forest has
  \<open>N = 2\<close> nodes of which \<open>M = 1\<close> is a dummy, and \<^verbatim>\<open>toFlatList\<close> returns no node
  instead of \<open>N - M = 1\<close>.
\<close>

theorem toFlatList_count_counterexample:
  "is_forest dummy_parent_heap [0] dummy_parent_forest
   \<and> distinct (nodes dummy_parent_forest)
   \<and> length (nodes dummy_parent_forest) = 2
   \<and> dummy_count dummy_parent_heap dummy_parent_forest = 1
   \<and> toFlatList dummy_parent_heap [0] 0 = Some (dummy_parent_heap, [])"
  by (simp add: dummy_parent_heap_def dummy_parent_forest_def example_defs toFlatList_Cons)

text \<open>
  C1, amended: for a forest without repeated objects, \<^verbatim>\<open>toFlatList(forest, 0)\<close> returns, in
  depth-first pre-order, exactly the nodes that are neither dummies nor below a dummy,
  and leaves in the \<^verbatim>\<open>callDepth\<close> of each returned node its ancestor count; these are
  \<open>N - M\<close> nodes when no node of the forest lies below a dummy. In every case they are at
  most \<open>N - M\<close> nodes, and they are \<open>N - M\<close> nodes if and only if no node that is not a
  dummy lies below a dummy.
\<close>

theorem toFlatList_flattens:
  assumes "is_forest h forest ts" and "distinct (nodes ts)"
  shows "\<exists>h'. toFlatList h forest 0 = Some (h', map fst (filter (visible h) (walks ts)))
     \<and> (\<forall>(r, anc) \<in> set (filter (visible h) (walks ts)). callDepth (body (h' r)) = length anc)
     \<and> (no_dummy_ancestor h ts \<longrightarrow>
          length (filter (visible h) (walks ts)) = length (nodes ts) - dummy_count h ts)
     \<and> length (filter (visible h) (walks ts)) \<le> length (nodes ts) - dummy_count h ts
     \<and> (length (filter (visible h) (walks ts)) = length (nodes ts) - dummy_count h ts
          \<longleftrightarrow> no_hidden_node h ts)"
proof -
  have "toFlatList h forest 0
      = Some (fold (mark []) ts h, map fst (filter (visible h) (walks ts)))"
    using assms(1) by (rule toFlatList_is_forest)
  moreover have "\<forall>(r, anc) \<in> set (filter (visible h) (walks ts)).
      callDepth (body (fold (mark []) ts h r)) = length anc"
    using marks_depth [OF assms(2)] by blast
  ultimately show ?thesis using visible_count visible_count_le by blast
qed

lemma flat_forest_ok:
  "is_forest flat_heap [0, 4] flat_forest" "distinct (nodes flat_forest)"
  by (simp_all add: flat_heap_def flat_forest_def example_defs)

text \<open>The amended C1 on the example forest: four of five nodes, the fifth is a dummy leaf.\<close>

theorem toFlatList_flattens_witness:
  "\<exists>h'. toFlatList flat_heap [0, 4] 0 = Some (h', [0, 1, 3, 4])
     \<and> callDepth (body (h' 0)) = 0 \<and> callDepth (body (h' 1)) = 1
     \<and> callDepth (body (h' 3)) = 2 \<and> callDepth (body (h' 4)) = 0
     \<and> length [0, 1, 3, 4 :: nat] = length (nodes flat_forest) - dummy_count flat_heap flat_forest
     \<and> no_hidden_node flat_heap flat_forest"
proof -
  have v: "filter (visible flat_heap) (walks flat_forest) = [(0, []), (1, [0]), (3, [0, 1]), (4, [])]"
    by (simp add: flat_heap_def flat_forest_def example_defs)
  have n: "no_dummy_ancestor flat_heap flat_forest"
    by (simp add: no_dummy_ancestor_def flat_heap_def flat_forest_def example_defs)
  show ?thesis
    using toFlatList_flattens [OF flat_forest_ok] n unfolding v by auto
qed

text \<open>
  C10: in a forest without repeated objects, a node that is a dummy or lies below a
  dummy (\<open>d\<close> is the node itself or one of its ancestors) is absent from the list
  \<^verbatim>\<open>toFlatList\<close> returns, whether or not the node itself is a dummy.
\<close>

theorem toFlatList_skips_dummy_subtree:
  assumes "is_forest h forest ts" and "distinct (nodes ts)"
    and "(x, anc) \<in> set (walks ts)" and "d \<in> set (x # anc)" and "isDummy (h d)"
  shows "\<exists>h' out. toFlatList h forest 0 = Some (h', out) \<and> x \<notin> set out"
proof -
  have out: "toFlatList h forest 0
      = Some (fold (mark []) ts h, map fst (filter (visible h) (walks ts)))"
    using assms(1) by (rule toFlatList_is_forest)
  have "x \<notin> set (map fst (filter (visible h) (walks ts)))"
  proof
    assume "x \<in> set (map fst (filter (visible h) (walks ts)))"
    then obtain a where a: "(x, a) \<in> set (walks ts)" "visible h (x, a)" by auto
    have "inj_on fst (set (walks ts))"
      using assms(2) unfolding nodes_def by (simp add: distinct_map)
    then have "(x, a) = (x, anc)" using a(1) assms(3) by (intro inj_onD [of fst]) simp_all
    then have "a = anc" by simp
    then show False using a(2) assms(4,5) by (auto simp: visible_def)
  qed
  then show ?thesis using out by blast
qed

text \<open>C10 on the dummy root: its child, not a dummy, is not returned.\<close>

theorem toFlatList_skips_dummy_subtree_witness:
  "\<exists>h' out. toFlatList dummy_parent_heap [0] 0 = Some (h', out) \<and> 1 \<notin> set out"
proof -
  have "is_forest dummy_parent_heap [0] dummy_parent_forest" "distinct (nodes dummy_parent_forest)"
    "(1, [0]) \<in> set (walks dummy_parent_forest)" "0 \<in> set [1, 0 :: nat]" "isDummy (dummy_parent_heap 0)"
    by (simp_all add: dummy_parent_heap_def dummy_parent_forest_def example_defs)
  then show ?thesis by (rule toFlatList_skips_dummy_subtree)
qed


section \<open>Predecessors and the signing nonce\<close>

lemma preorder_walk: "map fst (walk anc t) = preorder t"
proof (induction t arbitrary: anc)
  case (Tree r ks)
  have "map (\<lambda>k. map fst (walk (anc @ [r]) k)) ks = map preorder ks"
    using Tree by simp
  then have "concat (map (\<lambda>k. map fst (walk (anc @ [r]) k)) ks) = concat (map preorder ks)"
    by (rule arg_cong)
  then show ?case by (simp add: map_concat comp_def)
qed

lemma nodes_preorder: "nodes ts = concat (map preorder ts)"
  by (simp add: nodes_def walks_def map_concat comp_def preorder_walk)

lemma forEach_Nil [simp]: "forEach h [] callback v = Some v"
  by (subst forEach.simps) simp

lemma forEach_Cons:
  "forEach h (update # rest) callback v =
     do { v' \<leftarrow> forEach h (children_accountUpdates (h update)) callback (callback update v);
          forEach h rest callback v' }"
  by (subst forEach.simps) simp

lemma forEach_forest_aux:
  "\<forall>t \<in> set ts. forEach_tree_ok h callback t \<Longrightarrow>
   forEach h (map root ts) callback v = Some (fold callback (concat (map preorder ts)) v)"
  by (induction ts arbitrary: v) (simp_all add: forEach_tree_ok_def)

lemma forEach_tree_ok: "is_tree h t \<Longrightarrow> forEach_tree_ok h callback t"
proof (induction t)
  case (Tree r ks)
  have "\<forall>k \<in> set ks. forEach_tree_ok h callback k"
    using Tree by simp
  then have "forEach h (map root ks) callback v = Some (fold callback (concat (map preorder ks)) v)" for v
    by (rule forEach_forest_aux)
  moreover have "children_accountUpdates (h r) = map root ks"
    using Tree.prems by simp
  ultimately show ?case
    by (simp add: forEach_tree_ok_def forEach_Cons)
qed

lemma forEach_forest:
  assumes "is_forest h updates ts"
  shows "forEach h updates callback v = Some (fold callback (nodes ts) v)"
proof -
  have "\<forall>t \<in> set ts. forEach_tree_ok h callback t"
    using assms by (simp add: is_forest_def forEach_tree_ok)
  then have "forEach h (map root ts) callback v = Some (fold callback (concat (map preorder ts)) v)"
    by (rule forEach_forest_aux)
  then show ?thesis
    using assms by (simp add: is_forest_def nodes_preorder)
qed

lemma fold_isPredecessor_False:
  "fold (\<lambda>otherUpdate (isPredecessor, v).
           let isPredecessor' = (if target otherUpdate then False else isPredecessor)
           in (isPredecessor', if isPredecessor' then callback otherUpdate v else v)) xs (False, v)
   = (False, v)"
  by (induction xs) simp_all

lemma fold_isPredecessor:
  "snd (fold (\<lambda>otherUpdate (isPredecessor, v).
           let isPredecessor' = (if target otherUpdate then False else isPredecessor)
           in (isPredecessor', if isPredecessor' then callback otherUpdate v else v)) xs (True, v))
   = fold callback (takeWhile (\<lambda>otherUpdate. \<not> target otherUpdate) xs) v"
  by (induction xs arbitrary: v) (simp_all add: fold_isPredecessor_False)

lemma forEachPredecessor_forest:
  assumes "is_forest h updates ts"
  shows "forEachPredecessor h updates (AccountUpdate_of update) callback v
         = Some (fold callback (predecessors h ts update) v)"
  unfolding forEachPredecessor_def forEach_forest [OF assms] predecessors_def
  using fold_isPredecessor [of "\<lambda>otherUpdate. update_id (h otherUpdate) = update_id (h update)"]
  by simp

lemma fold_count: "fold (\<lambda>x n. if P x then n + 1 else n) xs (n0 :: nat) = n0 + length (filter P xs)"
  by (induction xs arbitrary: n0) simp_all

lemma predecessors_prefix:
  assumes "update \<in> set (nodes ts)"
    and "\<forall>other \<in> set (nodes ts). update_id (h other) = update_id (h update) \<longrightarrow> other = update"
  shows "\<exists>after. nodes ts = predecessors h ts update @ update # after"
proof -
  let ?P = "\<lambda>otherUpdate. update_id (h otherUpdate) \<noteq> update_id (h update)"
  have "nodes ts = takeWhile ?P (nodes ts) @ dropWhile ?P (nodes ts)" by simp
  moreover have "dropWhile ?P (nodes ts) \<noteq> []" using assms(1) by auto
  then obtain y ys where d: "dropWhile ?P (nodes ts) = y # ys" by (cases "dropWhile ?P (nodes ts)") auto
  then have "\<not> ?P y" using hd_dropWhile [of ?P "nodes ts"] by auto
  moreover have "y \<in> set (nodes ts)" using d set_dropWhileD [of y ?P "nodes ts"] by simp
  ultimately have "y = update" using assms(2) by auto
  then show ?thesis using d unfolding predecessors_def by (metis takeWhile_dropWhile_id)
qed

text \<open>
  C3: in a pending transaction whose top-level list is a forest, the nonce that
  \<^verbatim>\<open>getSigningInfoUnchecked\<close> resolves for an account update is the on-chain nonce of its
  account, plus 1 if the sender of the transaction is its public key and its token is the
  default token, plus 1 for every predecessor with the same public key and token id whose
  \<^verbatim>\<open>incrementNonce\<close> is true. It is resolved when this number is a \<^verbatim>\<open>UInt32\<close>; when the
  number is above \<open>2\<^sup>3\<^sup>2 - 1\<close> no nonce is resolved, \<^verbatim>\<open>UInt32.from\<close> throws.
  \<^verbatim>\<open>forEachPredecessor\<close> runs its callback, in pre-order, on
  the nodes before the first node with the id of the update and on no other; when the
  update is in the forest and no other node has its id, these are the nodes strictly
  before the update.
\<close>

theorem signing_nonce:
  assumes "currentTransaction s = Some tx"
    and "is_forest (heap s) (accountUpdates tx) ts"
  shows "getSigningInfoUnchecked accountNonce s (AccountUpdate_of update) =
      Some (if counted_nonce accountNonce (heap s) tx ts update \<le> UInt32_MAXINT
            then Inr \<lparr>nonce = counted_nonce accountNonce (heap s) tx ts update,
                       isSameAsFeePayer = (sender tx = Some (publicKey (body (heap s update)))
                                           \<and> tokenId (body (heap s update)) = TokenId_default)\<rparr>
            else Inl (RangeError (counted_nonce accountNonce (heap s) tx ts update)))
    \<and> forEachPredecessor (heap s) (accountUpdates tx) (AccountUpdate_of update) callback v
        = Some (fold callback (predecessors (heap s) ts update) v)
    \<and> (update \<in> set (nodes ts)
        \<and> (\<forall>other \<in> set (nodes ts). update_id (heap s other) = update_id (heap s update) \<longrightarrow> other = update)
        \<longrightarrow> (\<exists>after. nodes ts = predecessors (heap s) ts update @ update # after))"
proof -
  let ?same = "sender tx = Some (publicKey (body (heap s update)))
                 \<and> tokenId (body (heap s update)) = TokenId_default"
  have 1: "getSigningInfoUnchecked accountNonce s (AccountUpdate_of update) =
      Some (if counted_nonce accountNonce (heap s) tx ts update \<le> UInt32_MAXINT
            then Inr \<lparr>nonce = counted_nonce accountNonce (heap s) tx ts update,
                       isSameAsFeePayer = ?same\<rparr>
            else Inl (RangeError (counted_nonce accountNonce (heap s) tx ts update)))"
    using assms
    by (auto simp: getSigningInfoUnchecked_def forEachPredecessor_forest fold_count Let_def
        counted_nonce_def UInt32_from_def split: option.splits)
  have 2: "forEachPredecessor (heap s) (accountUpdates tx) (AccountUpdate_of update) callback v
        = Some (fold callback (predecessors (heap s) ts update) v)"
    using assms(2) by (simp add: forEachPredecessor_forest)
  have 3: "update \<in> set (nodes ts)
        \<and> (\<forall>other \<in> set (nodes ts). update_id (heap s other) = update_id (heap s update) \<longrightarrow> other = update)
        \<longrightarrow> (\<exists>after. nodes ts = predecessors (heap s) ts update @ update # after)"
    using predecessors_prefix by blast
  show ?thesis using 1 2 3 by blast
qed

text \<open>
  C3 on the example transaction: on-chain nonce 7, the fee payer, two increments; and
  from the largest on-chain nonce, where the count leaves the range.
\<close>

theorem signing_nonce_witness:
  "getSigningInfoUnchecked (\<lambda>_ _. 7) nonce_state (AccountUpdate_of 3)
     = Some (Inr \<lparr>nonce = 10, isSameAsFeePayer = True\<rparr>)
   \<and> getSigningInfoUnchecked (\<lambda>_ _. 4294967295) nonce_state (AccountUpdate_of 3)
     = Some (Inl (RangeError 4294967298))
   \<and> forEachPredecessor (heap nonce_state) [0, 2, 3] (AccountUpdate_of 3) (#) [] = Some [2, 1, 0]
   \<and> (\<exists>after. nodes nonce_forest = predecessors (heap nonce_state) nonce_forest 3 @ 3 # after)"
proof -
  let ?tx = "\<lparr>sender = Some (PublicKey 5), accountUpdates = [0, 2, 3]\<rparr>"
  have tx: "currentTransaction nonce_state = Some ?tx"
    by (simp add: nonce_state_def)
  have f: "is_forest (heap nonce_state) (accountUpdates ?tx) nonce_forest"
    by (simp add: nonce_state_def nonce_forest_def is_forest_def object_def incrementing_def)
  have p: "predecessors (heap nonce_state) nonce_forest 3 = [0, 1, 2]"
    by (simp add: predecessors_def nonce_state_def nonce_forest_def nodes_def walks_def
        object_def incrementing_def)
  have n: "nodes nonce_forest = [0, 1, 2, 3]"
    by (simp add: nonce_forest_def nodes_def walks_def)
  have u: "\<forall>other \<in> set (nodes nonce_forest).
      update_id (heap nonce_state other) = update_id (heap nonce_state 3) \<longrightarrow> other = 3"
    by (simp add: n nonce_state_def object_def incrementing_def)
  note inst = signing_nonce [OF tx f, of _ 3 "(#)" "[]"]
  have b: "publicKey (body (heap nonce_state 3)) = PublicKey 5"
    "tokenId (body (heap nonce_state 3)) = TokenId_default"
    by (simp_all add: nonce_state_def object_def keepAll_def)
  have c: "filter (\<lambda>other. publicKey (body (heap nonce_state other)) = PublicKey 5
                     \<and> tokenId (body (heap nonce_state other)) = TokenId_default
                     \<and> incrementNonce (body (heap nonce_state other))) [0, 1, 2] = [0, 2]"
    by (simp add: nonce_state_def object_def incrementing_def keepAll_def)
  have k: "counted_nonce (\<lambda>_ _. a) (heap nonce_state) ?tx nonce_forest 3 = a + 3" for a
    unfolding counted_nonce_def p b c by simp
  have 1: "getSigningInfoUnchecked (\<lambda>_ _. 7) nonce_state (AccountUpdate_of 3)
     = Some (Inr \<lparr>nonce = 10, isSameAsFeePayer = True\<rparr>)"
    using inst [of "\<lambda>_ _. 7", THEN conjunct1] unfolding k b by (simp add: UInt32_MAXINT_def)
  have 2: "getSigningInfoUnchecked (\<lambda>_ _. 4294967295) nonce_state (AccountUpdate_of 3)
     = Some (Inl (RangeError 4294967298))"
    using inst [of "\<lambda>_ _. 4294967295", THEN conjunct1] unfolding k b
    by (simp add: UInt32_MAXINT_def)
  have 3: "forEachPredecessor (heap nonce_state) [0, 2, 3] (AccountUpdate_of 3) (#) [] = Some [2, 1, 0]"
    using inst [THEN conjunct2, THEN conjunct1] unfolding p by simp
  have 4: "\<exists>after. nodes nonce_forest = predecessors (heap nonce_state) nonce_forest 3 @ 3 # after"
    using inst [THEN conjunct2, THEN conjunct2] u by (simp add: n)
  show ?thesis using 1 2 3 4 by blast
qed

section \<open>The hash of the children\<close>

lemma hashChildrenLoop_Nil [simp]:
  "hashChildrenLoop H hash c h [] stackHash = Some (Inr stackHash)"
  by (subst hashChildrenLoop.simps) simp

lemma hashChildrenLoop_Cons:
  "hashChildrenLoop H hash c h (accountUpdate # rest) stackHash =
     do { r \<leftarrow> hashChildren H hash c h accountUpdate;
          case r of
            Inl e \<Rightarrow> Some (Inl e)
          | Inr calls \<Rightarrow>
              hashChildrenLoop H hash c h rest
                (if isDummy (h accountUpdate) then stackHash
                 else H accountUpdateCons [H accountUpdateNode [hash (h accountUpdate), calls], stackHash]) }"
proof (cases "hashChildrenLoop H hash c h (rev (children_accountUpdates (h accountUpdate))) emptyHash")
  case None
  then show ?thesis
    by (subst hashChildrenLoop.simps) (simp add: hashChildren_def hashChildrenBase_def)
next
  case (Some base)
  then show ?thesis
    by (subst hashChildrenLoop.simps)
      (simp add: hashChildren_def hashChildrenBase_def Let_def split: sum.split)
qed

lemma hashChildrenLoop_fold:
  "\<forall>child \<in> set xs. hashChildren H hash c h child = Some (Inr (calls child)) \<Longrightarrow>
   hashChildrenLoop H hash c h xs stackHash = Some (Inr (fold (stack_step H hash h calls) xs stackHash))"
  by (induction xs arbitrary: stackHash) (simp_all add: hashChildrenLoop_Cons stack_step_def)

lemma hashChildren_leaf:
  "children_accountUpdates (h child) = [] \<Longrightarrow> children_callsType (h child) = CallsNone \<Longrightarrow>
   hashChildren H hash c h child = Some (Inr emptyHash)"
  by (simp add: hashChildren_def hashChildrenBase_def hashChildren_of_def)

text \<open>
  C2: \<^verbatim>\<open>hashChildrenBase\<close> of a node without children is \<^verbatim>\<open>emptyHash()\<close>; of a node
  with one child that is not a dummy, has \<^verbatim>\<open>callsType\<close> \<^verbatim>\<open>None\<close> and no children, it is
  \<^verbatim>\<open>H(cons, [H(node, [hash(child), emptyHash()]), emptyHash()])\<close>; in general, when
  \<^verbatim>\<open>hashChildren\<close> returns \<^verbatim>\<open>calls child\<close> on each child, it is the fold of \<^verbatim>\<open>stack_step\<close>
  over the children in reverse order, from \<^verbatim>\<open>emptyHash()\<close>.
\<close>

theorem hashChildrenBase_fold:
  "(children_accountUpdates (h update) = [] \<longrightarrow>
      hashChildrenBase H hash c h update = Some (Inr emptyHash))
   \<and> (children_accountUpdates (h update) = [child] \<and> \<not> isDummy (h child)
        \<and> children_callsType (h child) = CallsNone \<and> children_accountUpdates (h child) = [] \<longrightarrow>
      hashChildrenBase H hash c h update =
        Some (Inr (H accountUpdateCons [H accountUpdateNode [hash (h child), emptyHash], emptyHash])))
   \<and> ((\<forall>child \<in> set (children_accountUpdates (h update)).
          hashChildren H hash c h child = Some (Inr (calls child))) \<longrightarrow>
      hashChildrenBase H hash c h update =
        Some (Inr (fold (stack_step H hash h calls) (rev (children_accountUpdates (h update))) emptyHash)))"
proof (intro conjI impI)
  assume "children_accountUpdates (h update) = []"
  then show "hashChildrenBase H hash c h update = Some (Inr emptyHash)"
    by (simp add: hashChildrenBase_def)
next
  assume "children_accountUpdates (h update) = [child] \<and> \<not> isDummy (h child)
        \<and> children_callsType (h child) = CallsNone \<and> children_accountUpdates (h child) = []"
  then show "hashChildrenBase H hash c h update =
        Some (Inr (H accountUpdateCons [H accountUpdateNode [hash (h child), emptyHash], emptyHash]))"
    by (simp add: hashChildrenBase_def hashChildrenLoop_Cons hashChildren_leaf)
next
  assume "\<forall>child \<in> set (children_accountUpdates (h update)).
          hashChildren H hash c h child = Some (Inr (calls child))"
  then show "hashChildrenBase H hash c h update =
        Some (Inr (fold (stack_step H hash h calls) (rev (children_accountUpdates (h update))) emptyHash))"
    unfolding hashChildrenBase_def by (intro hashChildrenLoop_fold) simp
qed

lemmas hash_example_defs = hashChildren_def hashChildrenBase_def hashChildrenLoop_Cons
  hashChildren_of_def flat_heap_def object_def keepAll_def isDummy_def isEmpty_def
  PublicKey_empty_def emptyHash_def toy_hash_def stack_step_def

text \<open>
  C2 on the example store: a leaf, a node with one leaf child, and a node with two
  children of which the second is a dummy.
\<close>

theorem hashChildrenBase_fold_witness:
  "hashChildrenBase toy_hash update_id False flat_heap 3 = Some (Inr emptyHash)
   \<and> hashChildrenBase toy_hash update_id False flat_heap 1 =
       Some (Inr (toy_hash accountUpdateCons [toy_hash accountUpdateNode [13, emptyHash], emptyHash]))
   \<and> hashChildrenBase toy_hash update_id False flat_heap 0 =
       Some (Inr (toy_hash accountUpdateCons [toy_hash accountUpdateNode [11, 77], emptyHash]))"
proof -
  have 1: "children_accountUpdates (flat_heap 3) = []"
    by (simp add: flat_heap_def object_def)
  have 2: "children_accountUpdates (flat_heap 1) = [3] \<and> \<not> isDummy (flat_heap 3)
        \<and> children_callsType (flat_heap 3) = CallsNone \<and> children_accountUpdates (flat_heap 3) = []"
    by (simp add: hash_example_defs)
  have 3: "\<forall>child \<in> set (children_accountUpdates (flat_heap 0)).
      hashChildren toy_hash update_id False flat_heap child = Some (Inr (if child = 1 then 77 else 0))"
    by (simp add: hash_example_defs)
  have a: "hashChildrenBase toy_hash update_id False flat_heap 3 = Some (Inr emptyHash)"
    using hashChildrenBase_fold [of flat_heap 3 toy_hash update_id False] 1 by blast
  have b: "hashChildrenBase toy_hash update_id False flat_heap 1 =
       Some (Inr (toy_hash accountUpdateCons [toy_hash accountUpdateNode [update_id (flat_heap 3), emptyHash], emptyHash]))"
    using hashChildrenBase_fold [of flat_heap 1 toy_hash update_id False 3] 2 by blast
  have c: "hashChildrenBase toy_hash update_id False flat_heap 0 =
       Some (Inr (fold (stack_step toy_hash update_id flat_heap (\<lambda>child. if child = 1 then 77 else 0))
                    (rev (children_accountUpdates (flat_heap 0))) emptyHash))"
    using hashChildrenBase_fold [of flat_heap 0 toy_hash update_id False _ "\<lambda>child. if child = 1 then 77 else 0"] 3
    by blast
  have d: "fold (stack_step toy_hash update_id flat_heap (\<lambda>child. if child = 1 then 77 else 0))
             (rev (children_accountUpdates (flat_heap 0))) emptyHash
           = toy_hash accountUpdateCons [toy_hash accountUpdateNode [11, 77], emptyHash]"
    by (simp add: hash_example_defs)
  have e: "update_id (flat_heap 3) = 13"
    by (simp add: flat_heap_def object_def)
  show ?thesis using a b c unfolding d e by simp
qed


section \<open>Caller contexts\<close>

lemma addCallers_Nil [simp]: "addCallers getId h [] context = Some (h, [])"
  by (subst addCallers.simps) simp

lemma addCallers_Cons:
  "addCallers getId h (update # rest) context =
     do { (h2, below) \<leftarrow> addCallers getId
              (h(update := setCaller (ctx_caller (context_step getId (h update) context)) (h update)))
              (children_accountUpdates (h update)) (context_step getId (h update) context);
          (h3, after) \<leftarrow> addCallers getId h2 rest context;
          Some (h3, (update, context) # below @ after) }"
  by (subst addCallers.simps) (simp add: Let_def modify_def setCaller_def context_step_def)

lemma erase_setCaller [simp]: "erase (setCaller c a) = erase a"
  by (simp add: erase_def setCaller_def)

lemma erase_fields:
  assumes "erase a' = erase a"
  shows "isDelegateCall a' = isDelegateCall a" "publicKey (body a') = publicKey (body a)"
    "tokenId (body a') = tokenId (body a)" "parent a' = parent a"
    "children_accountUpdates a' = children_accountUpdates a" "update_id a' = update_id a"
proof -
  have "isDelegateCall (erase a') = isDelegateCall (erase a)"
    "publicKey (body (erase a')) = publicKey (body (erase a))"
    "tokenId (body (erase a')) = tokenId (body (erase a))" "parent (erase a') = parent (erase a)"
    "children_accountUpdates (erase a') = children_accountUpdates (erase a)"
    "update_id (erase a') = update_id (erase a)"
    using assms by simp_all
  then show "isDelegateCall a' = isDelegateCall a" "publicKey (body a') = publicKey (body a)"
    "tokenId (body a') = tokenId (body a)" "parent a' = parent a"
    "children_accountUpdates a' = children_accountUpdates a" "update_id a' = update_id a"
    by (simp_all add: erase_def)
qed

lemma context_step_cong: "erase a' = erase a \<Longrightarrow> context_step getId a' = context_step getId a"
  using erase_fields [of a' a] by (simp add: context_step_def fun_eq_iff)

lemma context_of_cong:
  assumes "\<forall>x. erase (h' x) = erase (h x)"
  shows "context_of getId h' anc = context_of getId h anc"
proof -
  have "context_step getId (h' r) = context_step getId (h r)" for r
    using assms by (intro context_step_cong) blast
  then have "(\<lambda>r. context_step getId (h' r)) = (\<lambda>r. context_step getId (h r))"
    by simp
  then show ?thesis by (simp only: context_of_def)
qed

lemma context_of_snoc:
  "context_of getId h (anc @ [r]) = context_step getId (h r) (context_of getId h anc)"
  by (simp add: context_of_def)

lemma erase_fold_callers:
  "(\<And>k h. k \<in> set ks \<Longrightarrow> erase (callers getId anc k h x) = erase (h x)) \<Longrightarrow>
   erase (fold (callers getId anc) ks h x) = erase (h x)"
  by (induction ks arbitrary: h) simp_all

lemma erase_callers: "erase (callers getId anc t h x) = erase (h x)"
proof (induction getId anc t h rule: callers.induct)
  case (1 getId anc r ks h)
  let ?h1 = "h(r := setCaller (ctx_caller (context_step getId (h r) (context_of getId h anc))) (h r))"
  have "erase (fold (callers getId (anc @ [r])) ks ?h1 x) = erase (?h1 x)"
    by (rule erase_fold_callers) (use 1 in auto)
  then show ?case by simp
qed

lemma addCallers_forest_aux:
  "\<forall>t \<in> set ts. callers_tree_ok getId t \<Longrightarrow> \<forall>t \<in> set ts. is_tree h t \<Longrightarrow>
   addCallers getId h (map root ts) (context_of getId h anc) =
     Some (fold (callers getId anc) ts h,
           map (\<lambda>(r, a). (r, context_of getId h a)) (concat (map (walk anc) ts)))"
proof (induction ts arbitrary: h)
  case Nil
  then show ?case by simp
next
  case (Cons t ts)
  let ?h1 = "callers getId anc t h"
  have e: "\<forall>x. erase (?h1 x) = erase (h x)" by (simp add: erase_callers)
  have c: "context_of getId ?h1 a = context_of getId h a" for a
    using e by (rule context_of_cong)
  have "is_tree ?h1 k = is_tree h k" for k
    using e by (rule is_tree_cong)
  then have "\<forall>t' \<in> set ts. is_tree ?h1 t'"
    using Cons.prems(2) by simp
  then have "addCallers getId ?h1 (map root ts) (context_of getId ?h1 anc) =
     Some (fold (callers getId anc) ts ?h1,
           map (\<lambda>(r, a). (r, context_of getId ?h1 a)) (concat (map (walk anc) ts)))"
    using Cons.IH Cons.prems(1) by simp
  then have "addCallers getId ?h1 (map root ts) (context_of getId h anc) =
     Some (fold (callers getId anc) ts ?h1,
           map (\<lambda>(r, a). (r, context_of getId h a)) (concat (map (walk anc) ts)))"
    by (simp only: c)
  moreover have "callers_tree_ok getId t" "is_tree h t" using Cons.prems by simp_all
  ultimately show ?case
    by (simp add: callers_tree_ok_def)
qed

lemma callers_tree_ok: "callers_tree_ok getId t"
proof (induction t)
  case (Tree r ks)
  show ?case unfolding callers_tree_ok_def
  proof (intro allI impI)
    fix h anc rest
    assume t: "is_tree h (Tree r ks)"
    let ?ctx = "context_of getId h anc"
    let ?h1 = "h(r := setCaller (ctx_caller (context_step getId (h r) ?ctx)) (h r))"
    have e: "\<forall>x. erase (?h1 x) = erase (h x)" by simp
    have c: "context_of getId ?h1 a = context_of getId h a" for a
      using e by (rule context_of_cong)
    have "is_tree ?h1 k = is_tree h k" for k
      using e by (rule is_tree_cong)
    then have "\<forall>k \<in> set ks. is_tree ?h1 k" using t by simp
    then have "addCallers getId ?h1 (map root ks) (context_of getId ?h1 (anc @ [r])) =
        Some (fold (callers getId (anc @ [r])) ks ?h1,
              map (\<lambda>(r, a). (r, context_of getId ?h1 a)) (concat (map (walk (anc @ [r])) ks)))"
      using addCallers_forest_aux Tree by blast
    then have "addCallers getId ?h1 (map root ks) (context_step getId (h r) ?ctx) =
        Some (fold (callers getId (anc @ [r])) ks ?h1,
              map (\<lambda>(r, a). (r, context_of getId h a)) (concat (map (walk (anc @ [r])) ks)))"
    proof -
      have cs: "context_step getId (?h1 r) = context_step getId (h r)"
        by (intro context_step_cong) simp
      assume "addCallers getId ?h1 (map root ks) (context_of getId ?h1 (anc @ [r])) =
        Some (fold (callers getId (anc @ [r])) ks ?h1,
              map (\<lambda>(r, a). (r, context_of getId ?h1 a)) (concat (map (walk (anc @ [r])) ks)))"
      then show ?thesis
        by (simp only: c context_of_snoc [of getId h])
    qed
    then show "addCallers getId h (root (Tree r ks) # rest) ?ctx =
       do { (h3, after) \<leftarrow> addCallers getId (callers getId anc (Tree r ks) h) rest ?ctx;
            Some (h3, map (\<lambda>(r, a). (r, context_of getId h a)) (walk anc (Tree r ks)) @ after) }"
      using t by (simp add: addCallers_Cons)
  qed
qed

lemma addCallers_forest:
  assumes "is_forest h updates ts"
  shows "addCallers getId h updates rootContext =
     Some (fold (callers getId []) ts h, map (\<lambda>(r, a). (r, context_of getId h a)) (walks ts))"
proof -
  have "\<forall>t \<in> set ts. is_tree h t" and u: "updates = map root ts"
    using assms by (simp_all add: is_forest_def)
  then have "addCallers getId h (map root ts) (context_of getId h []) =
     Some (fold (callers getId []) ts h,
           map (\<lambda>(r, a). (r, context_of getId h a)) (concat (map (walk []) ts)))"
    using addCallers_forest_aux callers_tree_ok by blast
  then show ?thesis
    using u by (simp add: walks_def context_of_def)
qed

lemma ancestorsLoop_chain:
  "chain h (parent (h current)) up \<Longrightarrow> ancestorsLoop h current ancestors = Some (rev up @ ancestors)"
proof (induction up arbitrary: current ancestors)
  case Nil
  then show ?case by (subst ancestorsLoop.simps) simp
next
  case (Cons a up)
  then have "ancestorsLoop h a (a # ancestors) = Some (rev up @ a # ancestors)"
    by simp
  then show ?case using Cons.prems by (subst ancestorsLoop.simps) simp
qed

lemma walk_chain:
  "parents_ok h p t \<Longrightarrow> chain h p (rev anc) \<Longrightarrow> (r, a) \<in> set (walk anc t) \<Longrightarrow>
   chain h (parent (h r)) (rev a)"
proof (induction t arbitrary: p anc)
  case (Tree x ks)
  consider "(r, a) = (x, anc)" | k where "k \<in> set ks" "(r, a) \<in> set (walk (anc @ [x]) k)"
    using Tree.prems(3) by auto
  then show ?case
  proof cases
    case 1
    then show ?thesis using Tree.prems(1,2) by simp
  next
    case 2
    have "parents_ok h (Some x) k" using Tree.prems(1) 2(1) by simp
    moreover have "chain h (Some x) (rev (anc @ [x]))" using Tree.prems(1,2) by simp
    ultimately show ?thesis using Tree.IH 2 by blast
  qed
qed

lemma parents_ok_cong: "\<forall>x. erase (h' x) = erase (h x) \<Longrightarrow> parents_ok h' p t = parents_ok h p t"
proof (induction t arbitrary: p)
  case (Tree r ks)
  have "parent (h' r) = parent (h r)"
    using Tree.prems erase_fields(4) by blast
  then show ?case using Tree by auto
qed

lemma computeCallerContext_walk:
  assumes "\<forall>t \<in> set ts. parents_ok h None t" and "(r, a) \<in> set (walks ts)"
  shows "computeCallerContext getId h r = Some (context_of getId h a)"
proof -
  obtain t where t: "t \<in> set ts" "(r, a) \<in> set (walk [] t)"
    using assms(2) by (auto simp: walks_def)
  have "chain h (parent (h r)) (rev a)"
    using walk_chain [of h None t "[]" r a] assms(1) t by simp
  then have "ancestorsLoop h r [] = Some a"
    using ancestorsLoop_chain [of h r "rev a" "[]"] by simp
  moreover have "(\<lambda>update context.
           if \<not> isDelegateCall (h update)
           then \<lparr>ctx_self = getId (publicKey (body (h update))) (tokenId (body (h update))),
                 ctx_caller = ctx_self context\<rparr>
           else context) = (\<lambda>r. context_step getId (h r))"
    by (auto simp: fun_eq_iff context_step_def)
  ultimately show ?thesis
    by (simp add: computeCallerContext_def context_of_def)
qed

lemma fold_callers_outside:
  "(\<And>k h. k \<in> set ks \<Longrightarrow> callers getId anc k h x = h x) \<Longrightarrow> fold (callers getId anc) ks h x = h x"
  by (induction ks arbitrary: h) simp_all

lemma callers_outside: "x \<notin> fst ` set (walk anc t) \<Longrightarrow> callers getId anc t h x = h x"
proof (induction getId anc t h rule: callers.induct)
  case (1 getId anc r ks h)
  let ?h1 = "h(r := setCaller (ctx_caller (context_step getId (h r) (context_of getId h anc))) (h r))"
  have x: "x \<noteq> r" and out: "\<And>k. k \<in> set ks \<Longrightarrow> x \<notin> fst ` set (walk (anc @ [r]) k)"
    using "1.prems" by auto
  have "fold (callers getId (anc @ [r])) ks ?h1 x = ?h1 x"
    by (rule fold_callers_outside) (use "1.IH" out in blast)
  then show ?case using x by simp
qed

lemma caller_forest:
  "\<forall>t \<in> set ts. caller_ok getId t \<Longrightarrow> distinct (concat (map (\<lambda>t. map fst (walk anc t)) ts)) \<Longrightarrow>
   (x, a) \<in> set (concat (map (walk anc) ts)) \<Longrightarrow>
   caller (body (fold (callers getId anc) ts h x)) = ctx_caller (context_step getId (h x) (context_of getId h a))"
proof (induction ts arbitrary: h)
  case Nil
  then show ?case by simp
next
  case (Cons t ts)
  let ?h1 = "callers getId anc t h"
  have d: "distinct (map fst (walk anc t))"
    and ds: "distinct (concat (map (\<lambda>t. map fst (walk anc t)) ts))"
    and disj: "fst ` set (walk anc t) \<inter> (\<Union>k \<in> set ts. fst ` set (walk anc k)) = {}"
    using Cons.prems(2) by auto
  have e: "\<forall>y. erase (?h1 y) = erase (h y)" by (simp add: erase_callers)
  have c: "context_of getId ?h1 b = context_of getId h b" for b
    using e by (rule context_of_cong)
  have cs: "context_step getId (?h1 x) = context_step getId (h x)"
    using e by (intro context_step_cong) blast
  consider "(x, a) \<in> set (walk anc t)" | "(x, a) \<in> set (concat (map (walk anc) ts))"
    using Cons.prems(3) by auto
  then show ?case
  proof cases
    case 1
    then have "caller (body (?h1 x)) = ctx_caller (context_step getId (h x) (context_of getId h a))"
      using Cons.prems(1) d by (simp add: caller_ok_def)
    moreover have "x \<in> fst ` set (walk anc t)"
      using 1 by force
    then have "\<And>k. k \<in> set ts \<Longrightarrow> x \<notin> fst ` set (walk anc k)"
      using disj by blast
    then have "fold (callers getId anc) ts ?h1 x = ?h1 x"
      by (intro fold_callers_outside callers_outside)
    ultimately show ?thesis by simp
  next
    case 2
    then have "caller (body (fold (callers getId anc) ts ?h1 x))
        = ctx_caller (context_step getId (?h1 x) (context_of getId ?h1 a))"
      using Cons.IH Cons.prems(1) ds by simp
    then show ?thesis by (simp add: c cs)
  qed
qed

lemma caller_ok: "caller_ok getId t"
proof (induction t)
  case (Tree r ks)
  show ?case unfolding caller_ok_def
  proof (intro allI impI)
    fix h anc x a
    assume d: "distinct (map fst (walk anc (Tree r ks)))"
      and m: "(x, a) \<in> set (walk anc (Tree r ks))"
    let ?h1 = "h(r := setCaller (ctx_caller (context_step getId (h r) (context_of getId h anc))) (h r))"
    have e: "\<forall>y. erase (?h1 y) = erase (h y)" by simp
    have c: "context_of getId ?h1 b = context_of getId h b" for b
      using e by (rule context_of_cong)
    have cs: "context_step getId (?h1 x) = context_step getId (h x)"
      using e by (intro context_step_cong) blast
    have r: "\<And>k. k \<in> set ks \<Longrightarrow> r \<notin> fst ` set (walk (anc @ [r]) k)"
      and ds: "distinct (concat (map (\<lambda>t. map fst (walk (anc @ [r]) t)) ks))"
      using d by (auto simp: map_concat comp_def)
    consider "(x, a) = (r, anc)" | "(x, a) \<in> set (concat (map (walk (anc @ [r])) ks))"
      using m by auto
    then show "caller (body (callers getId anc (Tree r ks) h x))
        = ctx_caller (context_step getId (h x) (context_of getId h a))"
    proof cases
      case 1
      have "fold (callers getId (anc @ [r])) ks ?h1 r = ?h1 r"
        using r by (intro fold_callers_outside callers_outside)
      then show ?thesis using 1 by (simp add: setCaller_def)
    next
      case 2
      then have "caller (body (fold (callers getId (anc @ [r])) ks ?h1 x))
          = ctx_caller (context_step getId (?h1 x) (context_of getId ?h1 a))"
        using caller_forest Tree ds by blast
      then show ?thesis by (simp only: c cs callers.simps)
    qed
  qed
qed

lemma callers_caller:
  assumes "distinct (nodes ts)" and "(x, a) \<in> set (walks ts)"
  shows "caller (body (fold (callers getId []) ts h x))
         = ctx_caller (context_step getId (h x) (context_of getId h a))"
proof -
  have "distinct (concat (map (\<lambda>t. map fst (walk [] t)) ts))"
    using assms(1) by (simp add: nodes_def walks_def map_concat comp_def)
  moreover have "(x, a) \<in> set (concat (map (walk []) ts))"
    using assms(2) by (simp only: walks_def)
  ultimately show ?thesis
    using caller_forest caller_ok by blast
qed

text \<open>
  C7: on a forest whose parent references agree with the tree and whose roots have no
  parent, \<^verbatim>\<open>addCallers\<close> from the root context visits every node, and the context in which it
  visits a node is the context that \<^verbatim>\<open>computeCallerContext\<close> returns for that node, before
  and after the pass; when no object occurs twice, the \<^verbatim>\<open>caller\<close> that the pass leaves in
  the node is the one derived from that context.
\<close>

theorem computeCallerContext_addCallers:
  assumes "is_forest h updates ts" and "\<forall>t \<in> set ts. parents_ok h None t"
  shows "\<exists>h' contexts. addCallers getId h updates rootContext = Some (h', contexts)
     \<and> map fst contexts = nodes ts
     \<and> (\<forall>(update, context) \<in> set contexts.
          computeCallerContext getId h update = Some context
          \<and> computeCallerContext getId h' update = Some context
          \<and> (distinct (nodes ts) \<longrightarrow>
               caller (body (h' update))
                 = (if isDelegateCall (h update) then ctx_caller context else ctx_self context)))"
proof -
  let ?h' = "fold (callers getId []) ts h"
  let ?contexts = "map (\<lambda>(r, a). (r, context_of getId h a)) (walks ts)"
  have run: "addCallers getId h updates rootContext = Some (?h', ?contexts)"
    using assms(1) by (rule addCallers_forest)
  have e: "\<forall>x. erase (?h' x) = erase (h x)"
    by (simp add: erase_fold_callers erase_callers)
  have p': "\<forall>t \<in> set ts. parents_ok ?h' None t"
    using assms(2) parents_ok_cong [OF e] by simp
  have c: "context_of getId ?h' a = context_of getId h a" for a
    using e by (rule context_of_cong)
  have "computeCallerContext getId h update = Some ctx
        \<and> computeCallerContext getId ?h' update = Some ctx
        \<and> (distinct (nodes ts) \<longrightarrow>
               caller (body (?h' update))
                 = (if isDelegateCall (h update) then ctx_caller ctx else ctx_self ctx))"
    if "(update, ctx) \<in> set ?contexts" for update ctx
  proof -
    from that obtain q where q: "q \<in> set (walks ts)"
        "(update, ctx) = (\<lambda>(r, a). (r, context_of getId h a)) q"
      by auto
    define a where "a = snd q"
    have a: "(update, a) \<in> set (walks ts)" "ctx = context_of getId h a"
      using q by (simp_all add: case_prod_unfold a_def)
    have "caller (body (?h' update))
          = (if isDelegateCall (h update) then ctx_caller ctx else ctx_self ctx)"
      if "distinct (nodes ts)"
      using callers_caller [OF that a(1), of getId h] by (simp add: a(2) context_step_def)
    then show ?thesis
      using computeCallerContext_walk [OF assms(2) a(1)] computeCallerContext_walk [OF p' a(1)]
      by (simp add: a(2) c)
  qed
  moreover have "map fst ?contexts = nodes ts"
    by (simp add: nodes_def comp_def case_prod_unfold)
  ultimately show ?thesis using run by blast
qed

lemma delegate_heap_ok:
  "is_forest delegate_heap [0, 4] flat_forest" "\<forall>t \<in> set flat_forest. parents_ok delegate_heap None t"
  "distinct (nodes flat_forest)" "nodes flat_forest = [0, 1, 3, 2, 4]"
  by (simp_all add: delegate_heap_def flat_heap_def flat_forest_def is_forest_def object_def
      nodes_def walks_def)

lemma delegate_heap_context:
  "computeCallerContext toy_getId delegate_heap 3 = Some \<lparr>ctx_self = 51, ctx_caller = 1\<rparr>"
  by (simp add: computeCallerContext_def ancestorsLoop.simps delegate_heap_def flat_heap_def
      object_def keepAll_def toy_getId_def rootContext_def TokenId_default_def)

text \<open>C7 on the example store, at the grandchild below the delegate call.\<close>

theorem computeCallerContext_addCallers_witness:
  "\<exists>h' contexts. addCallers toy_getId delegate_heap [0, 4] rootContext = Some (h', contexts)
     \<and> (3, \<lparr>ctx_self = 51, ctx_caller = 1\<rparr>) \<in> set contexts
     \<and> computeCallerContext toy_getId delegate_heap 3 = Some \<lparr>ctx_self = 51, ctx_caller = 1\<rparr>
     \<and> caller (body (h' 3)) = 51"
proof -
  obtain h' contexts where r: "addCallers toy_getId delegate_heap [0, 4] rootContext = Some (h', contexts)"
    and n: "map fst contexts = nodes flat_forest"
    and c: "\<forall>(update, context) \<in> set contexts.
          computeCallerContext toy_getId delegate_heap update = Some context
          \<and> computeCallerContext toy_getId h' update = Some context
          \<and> (distinct (nodes flat_forest) \<longrightarrow>
               caller (body (h' update))
                 = (if isDelegateCall (delegate_heap update) then ctx_caller context else ctx_self context))"
    using computeCallerContext_addCallers [OF delegate_heap_ok(1,2), of toy_getId] by blast
  have "3 \<in> set (map fst contexts)"
    by (simp add: n delegate_heap_ok(4))
  then obtain ctx where m: "(3, ctx) \<in> set contexts" by auto
  then have k: "computeCallerContext toy_getId delegate_heap 3 = Some ctx"
    and l: "caller (body (h' 3)) = (if isDelegateCall (delegate_heap 3) then ctx_caller ctx else ctx_self ctx)"
    using c delegate_heap_ok(3) by auto
  have ctx: "ctx = \<lparr>ctx_self = 51, ctx_caller = 1\<rparr>"
    using k by (simp only: delegate_heap_context option.inject)
  have "\<not> isDelegateCall (delegate_heap 3)"
    by (simp add: delegate_heap_def flat_heap_def object_def)
  then have "caller (body (h' 3)) = 51"
    using l by (simp add: ctx)
  then show ?thesis using r m delegate_heap_context ctx by blast
qed


section \<open>Cloning\<close>

declare clone_tree.simps [simp del] clone_forest.simps(2) [simp del]

lemma frame_refl [simp]: "frame s s"
  by (simp add: frame_def)

lemma frame_trans: "frame s s1 \<Longrightarrow> frame s1 s2 \<Longrightarrow> frame s s2"
  by (auto simp: frame_def)

lemma clone_begin_frame:
  "frame s (fst (clone_begin s r))" "snd (clone_begin s r) = allocated s"
  "allocated (fst (clone_begin s r)) = Suc (allocated s)"
  by (simp_all add: clone_begin_def new_AccountUpdate_def Let_def modify_def frame_def)

lemma clone_finish_frame:
  "allocated s0 \<le> c \<Longrightarrow> frame s0 s \<Longrightarrow> frame s0 (clone_finish s r c cs)"
  by (simp add: clone_finish_def Let_def modify_def frame_def)

lemma clone_finish_allocated [simp]: "allocated (clone_finish s r c cs) = allocated s"
  by (simp add: clone_finish_def Let_def)

lemma clone_tree_unfold:
  "clone_tree (Tree r ks) s =
     (clone_finish (fst (clone_forest ks (fst (clone_begin s r)))) r (snd (clone_begin s r))
        (snd (clone_forest ks (fst (clone_begin s r)))),
      snd (clone_begin s r))"
  by (simp add: clone_tree.simps case_prod_unfold Let_def)

lemma clone_forest_unfold:
  "clone_forest (t # ts) s =
     (fst (clone_forest ts (fst (clone_tree t s))),
      snd (clone_tree t s) # snd (clone_forest ts (fst (clone_tree t s))))"
  by (simp add: clone_forest.simps case_prod_unfold Let_def)

lemma clone_tree_frame:
    "frame s (fst (clone_tree t s)) \<and> snd (clone_tree t s) = allocated s
     \<and> allocated s < allocated (fst (clone_tree t s))"
  and clone_forest_frame:
    "frame u (fst (clone_forest ts u))
     \<and> (\<forall>c \<in> set (snd (clone_forest ts u)). allocated u \<le> c \<and> c < allocated (fst (clone_forest ts u)))"
proof (induction t s and ts u rule: clone_tree_clone_forest.induct)
  case (1 r ks s)
  let ?s1 = "fst (clone_begin s r)"
  let ?s2 = "fst (clone_forest ks ?s1)"
  have ff: "frame ?s1 ?s2"
    using "1.IH" [OF refl prod.collapse] by simp
  have "frame s ?s2" using clone_begin_frame(1) ff by (rule frame_trans)
  then have "frame s (clone_finish ?s2 r (snd (clone_begin s r)) (snd (clone_forest ks ?s1)))"
    by (intro clone_finish_frame) (simp_all add: clone_begin_frame)
  moreover have "allocated s < allocated ?s2"
    using ff by (simp add: frame_def clone_begin_frame)
  ultimately show ?case
    by (simp only: clone_tree_unfold fst_conv snd_conv clone_begin_frame clone_finish_allocated)
next
  case (2 s)
  then show ?case by simp
next
  case (3 t ts s)
  let ?s1 = "fst (clone_tree t s)"
  let ?s2 = "fst (clone_forest ts ?s1)"
  have fb: "frame s ?s1" "snd (clone_tree t s) = allocated s" "allocated s < allocated ?s1"
    using "3.IH"(1) by simp_all
  have ff: "frame ?s1 ?s2"
    "\<forall>c \<in> set (snd (clone_forest ts ?s1)). allocated ?s1 \<le> c \<and> c < allocated ?s2"
    using "3.IH"(2) [OF refl prod.collapse] by simp_all
  have "frame s ?s2" using fb(1) ff(1) by (rule frame_trans)
  moreover have "\<forall>c \<in> set (snd (clone_tree t s) # snd (clone_forest ts ?s1)).
      allocated s \<le> c \<and> c < allocated ?s2"
    using fb ff by (auto simp: frame_def)
  ultimately show ?case
    by (simp only: clone_forest_unfold fst_conv snd_conv) 
qed

lemma clone_map_Nil [simp]: "clone_map s [] = Some (s, [])"
  by (subst clone_map.simps) simp

lemma clone_map_Cons:
  "clone_map s (accountUpdate # rest) =
     do { (s2, clonedChildren) \<leftarrow> clone_map (fst (clone_begin s accountUpdate))
             (children_accountUpdates (heap (fst (clone_begin s accountUpdate)) accountUpdate));
          (s4, clonedRest) \<leftarrow> clone_map
             (clone_finish s2 accountUpdate (snd (clone_begin s accountUpdate)) clonedChildren) rest;
          Some (s4, snd (clone_begin s accountUpdate) # clonedRest) }"
  by (subst clone_map.simps) (simp add: case_prod_unfold Let_def)

lemma is_tree_agree:
  "\<forall>r \<in> set (preorder t). h' r = h r \<Longrightarrow> is_tree h' t = is_tree h t"
proof (induction t)
  case (Tree r ks)
  have "is_tree h' k = is_tree h k" if "k \<in> set ks" for k
    using Tree that by auto
  then show ?case using Tree.prems by auto
qed

lemma is_tree_frame:
  "frame s s' \<Longrightarrow> \<forall>r \<in> set (preorder t). r < allocated s \<Longrightarrow> is_tree (heap s') t = is_tree (heap s) t"
  by (intro is_tree_agree) (simp add: frame_def)

lemma clone_map_forest_aux:
  "\<forall>t \<in> set ts. clone_tree_ok t \<Longrightarrow> \<forall>t \<in> set ts. is_tree (heap s) t \<Longrightarrow>
   \<forall>t \<in> set ts. \<forall>r \<in> set (preorder t). r < allocated s \<Longrightarrow>
   clone_map s (map root ts) = Some (clone_forest ts s)"
proof (induction ts arbitrary: s)
  case Nil
  then show ?case by simp
next
  case (Cons t ts)
  let ?s1 = "fst (clone_tree t s)"
  have f: "frame s ?s1" using clone_tree_frame by blast
  then have a: "\<forall>t' \<in> set ts. \<forall>r \<in> set (preorder t'). r < allocated ?s1"
    using Cons.prems(3) by (fastforce simp: frame_def)
  have "is_tree (heap ?s1) t' = is_tree (heap s) t'" if "t' \<in> set ts" for t'
    using f Cons.prems(3) that by (intro is_tree_frame) simp_all
  then have "\<forall>t' \<in> set ts. is_tree (heap ?s1) t'"
    using Cons.prems(2) by simp
  then have "clone_map ?s1 (map root ts) = Some (clone_forest ts ?s1)"
    using Cons.IH Cons.prems(1) a by simp
  moreover have "clone_tree_ok t" "is_tree (heap s) t" "\<forall>r \<in> set (preorder t). r < allocated s"
    using Cons.prems by simp_all
  ultimately show ?case
    by (simp add: clone_tree_ok_def clone_forest_unfold case_prod_unfold)
qed

lemma clone_tree_ok: "clone_tree_ok t"
proof (induction t)
  case (Tree r ks)
  show ?case unfolding clone_tree_ok_def
  proof (intro allI impI)
    fix s :: State and rest
    assume t: "is_tree (heap s) (Tree r ks)"
      and a: "\<forall>x \<in> set (preorder (Tree r ks)). x < allocated s"
    let ?s1 = "fst (clone_begin s r)"
    have f: "frame s ?s1" by (rule clone_begin_frame)
    have r: "heap ?s1 r = heap s r"
      using f a by (simp add: frame_def)
    have a1: "\<forall>k \<in> set ks. \<forall>x \<in> set (preorder k). x < allocated ?s1"
      using a by (auto simp: clone_begin_frame intro: less_SucI)
    have "is_tree (heap ?s1) k = is_tree (heap s) k" if "k \<in> set ks" for k
      using f a that by (intro is_tree_frame) auto
    then have "\<forall>k \<in> set ks. is_tree (heap ?s1) k" using t by simp
    then have "clone_map ?s1 (map root ks) = Some (clone_forest ks ?s1)"
      using clone_map_forest_aux Tree a1 by blast
    moreover have "children_accountUpdates (heap ?s1 r) = map root ks"
      using t r by simp
    ultimately show "clone_map s (root (Tree r ks) # rest) =
       do { (s4, clonedRest) \<leftarrow> clone_map (fst (clone_tree (Tree r ks) s)) rest;
            Some (s4, snd (clone_tree (Tree r ks) s) # clonedRest) }"
      by (simp add: clone_map_Cons clone_tree_unfold case_prod_unfold)
  qed
qed

lemma clone_map_forest:
  assumes "is_forest (heap s) updates ts" and "\<forall>r \<in> set (nodes ts). r < allocated s"
  shows "clone_map s updates = Some (clone_forest ts s)"
proof -
  have "\<forall>t \<in> set ts. \<forall>r \<in> set (preorder t). r < allocated s"
    using assms(2) by (simp add: nodes_preorder)
  then have "clone_map s (map root ts) = Some (clone_forest ts s)"
    using assms(1) clone_map_forest_aux clone_tree_ok by (simp add: is_forest_def)
  then show ?thesis using assms(1) by (simp add: is_forest_def)
qed

lemma clone_tree:
  assumes "is_tree (heap s) t" and "\<forall>r \<in> set (preorder t). r < allocated s"
  shows "clone s (root t) = Some (clone_tree t s)"
proof (cases t)
  case (Tree r ks)
  let ?s1 = "fst (clone_begin s r)"
  have f: "frame s ?s1" by (rule clone_begin_frame)
  have r: "heap ?s1 r = heap s r"
    using f assms(2) Tree by (simp add: frame_def)
  have "is_tree (heap ?s1) k = is_tree (heap s) k" if "k \<in> set ks" for k
    using f assms(2) Tree that by (intro is_tree_frame) auto
  then have "is_forest (heap ?s1) (children_accountUpdates (heap ?s1 r)) ks"
    using assms(1) Tree r by (simp add: is_forest_def)
  moreover have "\<forall>x \<in> set (nodes ks). x < allocated ?s1"
    using assms(2) Tree by (auto simp: clone_begin_frame nodes_preorder intro: less_SucI)
  ultimately have "clone_map ?s1 (children_accountUpdates (heap ?s1 r)) = Some (clone_forest ks ?s1)"
    by (rule clone_map_forest)
  then show ?thesis
    using Tree by (simp add: clone_def clone_tree_unfold case_prod_unfold Let_def)
qed

lemma clone_tree_root:
  assumes "r < allocated s"
  shows "heap (fst (clone_tree (Tree r ks) s)) (allocated s)
         = (heap s r)\<lparr>children_accountUpdates := snd (clone_forest ks (fst (clone_begin s r)))\<rparr>"
proof -
  let ?s1 = "fst (clone_begin s r)"
  let ?s2 = "fst (clone_forest ks ?s1)"
  have f: "frame ?s1 ?s2" using clone_forest_frame by blast
  have r2: "heap ?s2 r = heap s r" and c2: "heap ?s2 (allocated s) = heap ?s1 (allocated s)"
    using f assms clone_begin_frame [of s r] by (simp_all add: frame_def)
  have c1: "heap ?s1 (allocated s) =
      \<lparr>update_id = random s (draws s), label = [], body = body (heap s r), isDelegateCall = False,
       authorization = authorization (heap s r), lazyAuthorization = lazyAuthorization (heap s r),
       children_callsType = children_callsType (heap s r), children_accountUpdates = [],
       parent = None, isSelf = isSelf (heap s r)\<rparr>"
    using assms by (simp add: clone_begin_def new_AccountUpdate_def Let_def modify_def)
  show ?thesis
    using assms
    by (simp add: clone_tree_unfold clone_begin_frame clone_finish_def Let_def modify_def r2 c2 c1)
qed

lemma unlink_cong:
  "update_id (heap s a) = update_id (heap s b) \<Longrightarrow> parent (heap s a) = parent (heap s b) \<Longrightarrow>
   unlink s a = unlink s b"
  by (simp add: unlink_def)

lemma find_member: "x \<in> set xs \<Longrightarrow> P x \<Longrightarrow> find P xs \<noteq> None"
  by (induction xs) auto

text \<open>
  C9: \<^verbatim>\<open>AccountUpdate.clone\<close> of an update whose children unfold into a tree of existing
  objects returns a new object and leaves the existing ones as they are; the clone has the
  id of the original, so \<^verbatim>\<open>unlink\<close> of the clone does what \<^verbatim>\<open>unlink\<close> of the original
  does, \<^verbatim>\<open>forEachPredecessor\<close> stops at the same node for both, and
  \<^verbatim>\<open>attachToTransaction\<close> of the clone does nothing when the original is in the top-level
  list.
\<close>

theorem clone_keeps_id:
  assumes "is_tree (heap s) t" and "\<forall>r \<in> set (preorder t). r < allocated s"
  shows "\<exists>s'. clone s (root t) = Some (s', allocated s)
     \<and> (\<forall>r < allocated s. heap s' r = heap s r)
     \<and> currentTransaction s' = currentTransaction s
     \<and> update_id (heap s' (allocated s)) = update_id (heap s' (root t))
     \<and> unlink s' (allocated s) = unlink s' (root t)
     \<and> forEachPredecessor (heap s') updates (AccountUpdate_of (allocated s)) callback v
         = forEachPredecessor (heap s') updates (AccountUpdate_of (root t)) callback v
     \<and> (\<forall>tx. currentTransaction s' = Some tx \<and> root t \<in> set (accountUpdates tx)
           \<longrightarrow> attachToTransaction s' None (allocated s) = Inr s')"
proof (cases t)
  case (Tree r ks)
  let ?s' = "fst (clone_tree t s)"
  have r: "r < allocated s" using assms(2) Tree by simp
  have c: "clone s (root t) = Some (?s', allocated s)"
    using clone_tree [OF assms] clone_tree_frame [of s t] by (metis prod.collapse)
  have f: "frame s ?s'" using clone_tree_frame by blast
  then have old: "\<forall>x < allocated s. heap ?s' x = heap s x"
    and tx: "currentTransaction ?s' = currentTransaction s"
    by (simp_all add: frame_def)
  have new: "heap ?s' (allocated s)
      = (heap s r)\<lparr>children_accountUpdates := snd (clone_forest ks (fst (clone_begin s r)))\<rparr>"
    using clone_tree_root [OF r] Tree by simp
  have i: "update_id (heap ?s' (allocated s)) = update_id (heap ?s' (root t))"
    and p: "parent (heap ?s' (allocated s)) = parent (heap ?s' (root t))"
    using new old r Tree by simp_all
  have u: "unlink ?s' (allocated s) = unlink ?s' (root t)"
    using i p by (rule unlink_cong)
  have e: "forEachPredecessor (heap ?s') updates (AccountUpdate_of (allocated s)) callback v
         = forEachPredecessor (heap ?s') updates (AccountUpdate_of (root t)) callback v"
    by (simp add: forEachPredecessor_def i)
  have a: "attachToTransaction ?s' None (allocated s) = Inr ?s'"
    if "currentTransaction ?s' = Some tx" "root t \<in> set (accountUpdates tx)" for tx
  proof -
    have "find (\<lambda>update. update_id (heap ?s' update) = update_id (heap ?s' (allocated s)))
            (accountUpdates tx) \<noteq> None"
      using that(2) i by (intro find_member [of "root t"]) simp_all
    then show ?thesis using that(1) by (auto simp: attachToTransaction_def)
  qed
  show ?thesis using c old tx i u e a by blast
qed

text \<open>
  C9 on the example state: the clone of node 1 is the new object 5 with id 11, and
  unlinking the clone removes node 1 from the children of node 0.
\<close>

theorem clone_keeps_id_witness:
  "\<exists>s'. clone flat_state 1 = Some (s', 5)
     \<and> update_id (heap s' 5) = 11
     \<and> children_accountUpdates (heap s' 0) = [1, 2]
     \<and> children_accountUpdates (heap (unlink s' 5) 0) = [2]
     \<and> attachToTransaction s' None 5 = Inr (s'\<lparr>currentTransaction := Some \<lparr>sender = None, accountUpdates = [0, 4, 5]\<rparr>\<rparr>)"
proof -
  have t: "is_tree (heap flat_state) (Tree 1 [Tree 3 []])"
    "\<forall>r \<in> set (preorder (Tree 1 [Tree 3 []])). r < allocated flat_state"
    by (simp_all add: flat_state_def flat_heap_def object_def)
  have al: "allocated flat_state = 5" by (simp add: flat_state_def)
  obtain s' where c: "clone flat_state 1 = Some (s', 5)"
    and old: "\<forall>r < 5. heap s' r = heap flat_state r"
    and tx: "currentTransaction s' = currentTransaction flat_state"
    and i: "update_id (heap s' 5) = update_id (heap s' 1)"
    and u: "unlink s' 5 = unlink s' 1"
    using clone_keeps_id [OF t, of "[]" "(#)" "[]"] unfolding al by auto
  have 0: "flat_heap 0 = object 10 (PublicKey 5) [1, 2] None"
    and 1: "flat_heap 1 = object 11 (PublicKey 6) [3] (Some 0)"
    and 4: "flat_heap 4 = object 14 (PublicKey 7) [] None"
    by (simp_all add: flat_heap_def)
  have h: "heap s' 0 = object 10 (PublicKey 5) [1, 2] None"
    "heap s' (Suc 0) = object 11 (PublicKey 6) [3] (Some 0)"
    "heap s' 4 = object 14 (PublicKey 7) [] None"
    using old 0 1 4 by (simp_all add: flat_state_def)
  have i': "update_id (heap s' 5) = 11"
    using i by (simp add: h object_def)
  have "children_accountUpdates (heap (unlink s' 1) 0) = [2]"
    by (simp add: unlink_def h object_def modify_def splice1_def)
  moreover have "attachToTransaction s' None 5
      = Inr (s'\<lparr>currentTransaction := Some \<lparr>sender = None, accountUpdates = [0, 4, 5]\<rparr>\<rparr>)"
    by (simp add: attachToTransaction_def tx flat_state_def h i' object_def)
  ultimately show ?thesis using c i' u by (simp add: h object_def)
qed


section \<open>Adding the missing signatures\<close>

lemma findIndex_find:
  "map_option ((!) ks) (findIndex (\<lambda>pk. pk = P) (map f ks)) = find (\<lambda>k. f k = P) ks"
proof (induction ks)
  case Nil
  then show ?case by simp
next
  case (Cons k ks)
  have "map_option ((!) (k # ks)) (map_option Suc (findIndex (\<lambda>pk. pk = P) (map f ks)))
        = map_option ((!) ks) (findIndex (\<lambda>pk. pk = P) (map f ks))"
    by (simp add: option.map_comp comp_def)
  then show ?case using Cons by simp
qed

lemma resolve_key_findIndex:
  "(case privateKey of
      Some k \<Rightarrow> Inr k
    | None \<Rightarrow>
        (case findIndex (\<lambda>pk. pk = P) (map toPublicKey additionalKeys) of
           None \<Rightarrow> Inl e
         | Some i \<Rightarrow> Inr (additionalKeys ! i)))
   = (case resolve_key toPublicKey additionalKeys P privateKey of None \<Rightarrow> Inl e | Some k \<Rightarrow> Inr k)"
proof (cases privateKey)
  case None
  show ?thesis
  proof (cases "findIndex (\<lambda>pk. pk = P) (map toPublicKey additionalKeys)")
    case None
    then have "find (\<lambda>k. toPublicKey k = P) additionalKeys = None"
      using findIndex_find [of additionalKeys P toPublicKey] by simp
    then show ?thesis using None \<open>privateKey = None\<close> by (simp add: resolve_key_def)
  next
    case (Some i)
    then have "find (\<lambda>k. toPublicKey k = P) additionalKeys = Some (additionalKeys ! i)"
      using findIndex_find [of additionalKeys P toPublicKey] by simp
    then show ?thesis using Some \<open>privateKey = None\<close> by (simp add: resolve_key_def)
  qed
next
  case (Some k)
  then show ?thesis by (simp add: resolve_key_def)
qed

lemma addFeePayerSignature_signed:
  "addFeePayerSignature toPublicKey signFieldElement c additionalKeys feePayer'
   = feePayer_signed toPublicKey signFieldElement c additionalKeys feePayer'"
  by (simp add: addFeePayerSignature_def feePayer_signed_def resolve_key_findIndex
      split: option.split)

lemma length_clone_forest: "length (snd (clone_forest ts s)) = length ts"
  by (induction ts arbitrary: s) (simp_all add: clone_forest_unfold)

lemma addSignature_tree:
  assumes "is_tree (heap s) t" and "\<forall>r \<in> set (preorder t). r < allocated s"
  shows "addSignature toPublicKey signFieldElement c additionalKeys s (root t) =
     (case signature_for toPublicKey signFieldElement c additionalKeys (heap s (root t)) of
        Inl e \<Rightarrow> Some (Inl e)
      | Inr g \<Rightarrow> Some (Inr (sign_tree g t s, allocated s)))"
proof (cases t)
  case (Tree r ks)
  let ?s1 = "fst (clone_tree (Tree r ks) s)"
  have r: "r < allocated s" using assms(2) Tree by simp
  have c: "clone s (root t) = Some (?s1, allocated s)"
    using clone_tree [OF assms] clone_tree_frame [of s t] unfolding Tree by (metis prod.collapse)
  have new: "heap ?s1 (allocated s)
      = (heap s r)\<lparr>children_accountUpdates := snd (clone_forest ks (fst (clone_begin s r)))\<rparr>"
    using clone_tree_root [OF r] by simp
  show ?thesis
  proof (cases "lazyAuthorization (heap s r)")
    case None
    then show ?thesis
      unfolding addSignature_def c
      by (simp add: new Tree signature_for_def sign_tree_def)
  next
    case (Some la)
    show ?thesis
    proof (cases la)
      case (LazySignature privateKey)
      show ?thesis
      proof (cases "resolve_key toPublicKey additionalKeys (publicKey (body (heap s r))) privateKey")
        case None
        then show ?thesis
          unfolding addSignature_def c using Some LazySignature
          by (simp add: new Tree resolve_key_findIndex signature_for_def)
      next
        case (Some k)
        then show ?thesis
          unfolding addSignature_def c using \<open>lazyAuthorization (heap s r) = Some la\<close> LazySignature
          by (simp add: new Tree resolve_key_findIndex signature_for_def sign_tree_def Let_def)
      qed
    next
      case (LazyProof x)
      then show ?thesis
        unfolding addSignature_def c using Some
        by (simp add: new Tree signature_for_def sign_tree_def)
    next
      case LazyNone
      then show ?thesis
        unfolding addSignature_def c using Some
        by (simp add: new Tree signature_for_def sign_tree_def)
    qed
  qed
qed

lemma sign_tree_frame:
  "frame s (sign_tree g t s)" "allocated s < allocated (sign_tree g t s)"
proof -
  have f: "frame s (fst (clone_tree t s))" and a: "allocated s < allocated (fst (clone_tree t s))"
    using clone_tree_frame [of s t] by simp_all
  show "frame s (sign_tree g t s)"
    using f by (cases g) (simp_all add: sign_tree_def frame_def setSignature_def modify_def)
  show "allocated s < allocated (sign_tree g t s)"
    using a by (cases g) (simp_all add: sign_tree_def)
qed

lemma sign_tree_clone:
  assumes "is_tree (heap s) t" and "\<forall>r \<in> set (preorder t). r < allocated s"
  shows "signed_clone s (sign_tree g t s) g (root t) (allocated s)"
proof (cases t)
  case (Tree r ks)
  let ?s1 = "fst (clone_tree (Tree r ks) s)"
  have r: "r < allocated s" using assms(2) Tree by simp
  have new: "heap ?s1 (allocated s)
      = (heap s r)\<lparr>children_accountUpdates := snd (clone_forest ks (fst (clone_begin s r)))\<rparr>"
    using clone_tree_root [OF r] by simp
  have len: "length (children_accountUpdates (heap s r)) = length ks"
    using assms(1) Tree by simp
  have "allocated s < allocated (sign_tree g (Tree r ks) s)"
    by (rule sign_tree_frame)
  then show ?thesis
    unfolding Tree
    by (cases g)
      (simp_all add: signed_clone_def sign_tree_def with_signature_def new len length_clone_forest
        setSignature_def modify_def)
qed

lemma signature_for_frame:
  "frame s s' \<Longrightarrow> u < allocated s \<Longrightarrow>
   signature_for toPublicKey signFieldElement c additionalKeys (heap s' u)
   = signature_for toPublicKey signFieldElement c additionalKeys (heap s u)"
  by (simp add: frame_def)

lemma signed_clone_frame:
  assumes "signed_clone s1 s2 g u c" and "frame s s1" and "u < allocated s"
  shows "signed_clone s s2 g u c"
proof -
  have "heap s1 u = heap s u" and "allocated s \<le> allocated s1"
    using assms(2,3) by (simp_all add: frame_def)
  then show ?thesis
    using assms(1) by (simp add: signed_clone_def)
qed

lemma signed_clone_later:
  assumes "signed_clone s s1 g u c" and "frame s1 s2"
  shows "signed_clone s s2 g u c"
proof -
  have c: "c < allocated s1" using assms(1) by (simp add: signed_clone_def)
  then have "heap s2 c = heap s1 c" and "allocated s1 \<le> allocated s2"
    using assms(2) by (simp_all add: frame_def)
  then show ?thesis
    using assms(1) by (simp add: signed_clone_def)
qed

lemma root_preorder: "root t \<in> set (preorder t)"
  by (cases t) simp

lemma sign_tree_step:
  assumes "\<forall>t' \<in> set ts. is_tree (heap s) t'"
    and "\<forall>t' \<in> set ts. \<forall>r \<in> set (preorder t'). r < allocated s"
  shows "\<forall>t' \<in> set ts. is_tree (heap (sign_tree g t s)) t'"
    and "\<forall>t' \<in> set ts. \<forall>r \<in> set (preorder t'). r < allocated (sign_tree g t s)"
    and "\<forall>t' \<in> set ts. signature_for toPublicKey signFieldElement c additionalKeys
           (heap (sign_tree g t s) (root t'))
         = signature_for toPublicKey signFieldElement c additionalKeys (heap s (root t'))"
proof -
  let ?s1 = "sign_tree g t s"
  have f: "frame s ?s1" by (rule sign_tree_frame)
  have le: "allocated s \<le> allocated ?s1" using f by (simp add: frame_def)
  show "\<forall>t' \<in> set ts. is_tree (heap ?s1) t'"
  proof
    fix t' assume m: "t' \<in> set ts"
    have "\<forall>r \<in> set (preorder t'). r < allocated s" using assms(2) m by blast
    then have "is_tree (heap ?s1) t' = is_tree (heap s) t'"
      using f by (intro is_tree_frame)
    then show "is_tree (heap ?s1) t'" using assms(1) m by blast
  qed
  show "\<forall>t' \<in> set ts. \<forall>r \<in> set (preorder t'). r < allocated ?s1"
    using assms(2) le by (meson less_le_trans)
  show "\<forall>t' \<in> set ts. signature_for toPublicKey signFieldElement c additionalKeys
           (heap ?s1 (root t'))
         = signature_for toPublicKey signFieldElement c additionalKeys (heap s (root t'))"
  proof
    fix t' assume m: "t' \<in> set ts"
    have "root t' < allocated s" using assms(2) m root_preorder by blast
    then show "signature_for toPublicKey signFieldElement c additionalKeys (heap ?s1 (root t'))
         = signature_for toPublicKey signFieldElement c additionalKeys (heap s (root t'))"
      using f by (intro signature_for_frame)
  qed
qed

lemma addSignatures_forest:
  assumes "\<forall>t \<in> set ts. is_tree (heap s) t" and "\<forall>t \<in> set ts. \<forall>r \<in> set (preorder t). r < allocated s"
    and "\<forall>t \<in> set ts. signature_for toPublicKey signFieldElement c additionalKeys (heap s (root t))
           = Inr (g (root t))"
  shows "\<exists>s' cs. addSignatures toPublicKey signFieldElement c additionalKeys s (map root ts)
           = Some (Inr (s', cs))
     \<and> frame s s' \<and> list_all2 (\<lambda>u c. signed_clone s s' (g u) u c) (map root ts) cs"
  using assms
proof (induction ts arbitrary: s)
  case Nil
  then show ?case by simp
next
  case (Cons t ts)
  let ?s1 = "sign_tree (g (root t)) t s"
  have t: "is_tree (heap s) t" "\<forall>r \<in> set (preorder t). r < allocated s"
    using Cons.prems by simp_all
  have head: "addSignature toPublicKey signFieldElement c additionalKeys s (root t)
      = Some (Inr (?s1, allocated s))"
    using addSignature_tree [OF t] Cons.prems(3) by simp
  have f: "frame s ?s1" by (rule sign_tree_frame)
  have roots: "root t' < allocated s" if "t' \<in> set (t # ts)" for t'
    using Cons.prems(2) that root_preorder by blast
  have tl: "\<forall>t' \<in> set ts. is_tree (heap s) t'"
    "\<forall>t' \<in> set ts. \<forall>r \<in> set (preorder t'). r < allocated s"
    using Cons.prems(1,2) by simp_all
  have 1: "\<forall>t' \<in> set ts. is_tree (heap ?s1) t'"
    and 2: "\<forall>t' \<in> set ts. \<forall>r \<in> set (preorder t'). r < allocated ?s1"
    using sign_tree_step(1,2) [OF tl] by blast+
  have 3: "\<forall>t' \<in> set ts. signature_for toPublicKey signFieldElement c additionalKeys
             (heap ?s1 (root t')) = Inr (g (root t'))"
    using sign_tree_step(3) [OF tl, of toPublicKey signFieldElement c additionalKeys "g (root t)" t]
      Cons.prems(3) by simp
  obtain s' cs where run: "addSignatures toPublicKey signFieldElement c additionalKeys ?s1 (map root ts)
           = Some (Inr (s', cs))"
    and f': "frame ?s1 s'"
    and all: "list_all2 (\<lambda>u c. signed_clone ?s1 s' (g u) u c) (map root ts) cs"
    using Cons.IH [OF 1 2 3] by blast
  have "signed_clone s ?s1 (g (root t)) (root t) (allocated s)"
    using t by (rule sign_tree_clone)
  then have h: "signed_clone s s' (g (root t)) (root t) (allocated s)"
    using f' by (rule signed_clone_later)
  have "list_all2 (\<lambda>u c. signed_clone s s' (g u) u c) (map root ts) cs"
    using all
  proof (rule list.rel_mono_strong)
    fix u c assume "u \<in> set (map root ts)" and "signed_clone ?s1 s' (g u) u c"
    then show "signed_clone s s' (g u) u c"
      using f roots by (intro signed_clone_frame [of ?s1 s' "g u" u c s]) auto
  qed
  then have "list_all2 (\<lambda>u c. signed_clone s s' (g u) u c) (map root (t # ts)) (allocated s # cs)"
    using h by simp
  moreover have "frame s s'" using f f' by (rule frame_trans)
  moreover have "addSignatures toPublicKey signFieldElement c additionalKeys s (map root (t # ts))
           = Some (Inr (s', allocated s # cs))"
    by (simp add: head run)
  ultimately show ?case by blast
qed

lemma addSignatures_error:
  assumes "\<forall>t \<in> set (before @ [t0]). is_tree (heap s) t"
    and "\<forall>t \<in> set (before @ [t0]). \<forall>r \<in> set (preorder t). r < allocated s"
    and "\<forall>t \<in> set before. signature_for toPublicKey signFieldElement c additionalKeys (heap s (root t))
           = Inr (g (root t))"
    and "signature_for toPublicKey signFieldElement c additionalKeys (heap s (root t0)) = Inl e"
  shows "addSignatures toPublicKey signFieldElement c additionalKeys s (map root before @ root t0 # rest)
           = Some (Inl e)"
  using assms
proof (induction before arbitrary: s)
  case Nil
  then have "addSignature toPublicKey signFieldElement c additionalKeys s (root t0) = Some (Inl e)"
    using addSignature_tree [of s t0] by simp
  then show ?case by simp
next
  case (Cons t ts)
  let ?s1 = "sign_tree (g (root t)) t s"
  have t: "is_tree (heap s) t" "\<forall>r \<in> set (preorder t). r < allocated s"
    using Cons.prems by simp_all
  have head: "addSignature toPublicKey signFieldElement c additionalKeys s (root t)
      = Some (Inr (?s1, allocated s))"
    using addSignature_tree [OF t] Cons.prems(3) by simp
  have f: "frame s ?s1" by (rule sign_tree_frame)
  have tl: "\<forall>t' \<in> set (ts @ [t0]). is_tree (heap s) t'"
    "\<forall>t' \<in> set (ts @ [t0]). \<forall>r \<in> set (preorder t'). r < allocated s"
    using Cons.prems(1,2) by simp_all
  have 1: "\<forall>t' \<in> set (ts @ [t0]). is_tree (heap ?s1) t'"
    and 2: "\<forall>t' \<in> set (ts @ [t0]). \<forall>r \<in> set (preorder t'). r < allocated ?s1"
    using sign_tree_step(1,2) [OF tl] by blast+
  note st = sign_tree_step(3) [OF tl, of toPublicKey signFieldElement c additionalKeys "g (root t)" t]
  have 3: "\<forall>t' \<in> set ts. signature_for toPublicKey signFieldElement c additionalKeys
             (heap ?s1 (root t')) = Inr (g (root t'))"
    using st Cons.prems(3) by simp
  have 4: "signature_for toPublicKey signFieldElement c additionalKeys (heap ?s1 (root t0)) = Inl e"
    using st Cons.prems(4) by simp
  have "addSignatures toPublicKey signFieldElement c additionalKeys ?s1 (map root ts @ root t0 # rest)
           = Some (Inl e)"
    using Cons.IH [OF 1 2 3 4] .
  then show ?case by (simp add: head)
qed

text \<open>
  C6: for a command whose listed account updates unfold into trees of existing objects,
  with \<open>c\<close> the two commitments computed once from the command: the fee payer is signed
  as \<^verbatim>\<open>feePayer_signed\<close> says, with the full commitment; if its key is missing the call
  throws that error; if the key of a listed update is missing the call throws the error
  of the first such update; otherwise the call returns the signed fee payer, the memo and,
  for each listed update in order, a new object that is its clone, finalized with the
  signature that \<^verbatim>\<open>signature_for\<close> gives when the update has a lazy signature, while every
  object of the input is left as it was.
\<close>

theorem addMissingSignatures_signs:
  assumes "is_forest (heap s) (cmd_accountUpdates zkappCommand) ts"
    and "\<forall>r \<in> set (nodes ts). r < allocated s"
    and "c = transactionCommitments (heap s) zkappCommand"
  shows "addFeePayerSignature toPublicKey signFieldElement c additionalKeys (feePayer zkappCommand)
           = feePayer_signed toPublicKey signFieldElement c additionalKeys (feePayer zkappCommand)
     \<and> (\<forall>e. feePayer_signed toPublicKey signFieldElement c additionalKeys (feePayer zkappCommand) = Inl e
           \<longrightarrow> addMissingSignatures toPublicKey transactionCommitments signFieldElement s zkappCommand
                 additionalKeys = Some (Inl e))
     \<and> (\<forall>feePayer' before u after e.
           feePayer_signed toPublicKey signFieldElement c additionalKeys (feePayer zkappCommand) = Inr feePayer'
           \<and> cmd_accountUpdates zkappCommand = before @ u # after
           \<and> (\<forall>x \<in> set before.
                 signature_for toPublicKey signFieldElement c additionalKeys (heap s x) = Inr (g x))
           \<and> signature_for toPublicKey signFieldElement c additionalKeys (heap s u) = Inl e
           \<longrightarrow> addMissingSignatures toPublicKey transactionCommitments signFieldElement s zkappCommand
                 additionalKeys = Some (Inl e))
     \<and> (\<forall>feePayer'.
           feePayer_signed toPublicKey signFieldElement c additionalKeys (feePayer zkappCommand) = Inr feePayer'
           \<and> (\<forall>x \<in> set (cmd_accountUpdates zkappCommand).
                 signature_for toPublicKey signFieldElement c additionalKeys (heap s x) = Inr (g x))
           \<longrightarrow> (\<exists>s' cs.
                 addMissingSignatures toPublicKey transactionCommitments signFieldElement s zkappCommand
                   additionalKeys
                 = Some (Inr (s', \<lparr>signed_feePayer = feePayer', signed_accountUpdates = cs,
                                  signed_memo = memo zkappCommand\<rparr>))
                 \<and> frame s s'
                 \<and> list_all2 (\<lambda>u c. signed_clone s s' (g u) u c) (cmd_accountUpdates zkappCommand) cs))"
proof (intro conjI allI impI)
  show "addFeePayerSignature toPublicKey signFieldElement c additionalKeys (feePayer zkappCommand)
           = feePayer_signed toPublicKey signFieldElement c additionalKeys (feePayer zkappCommand)"
    by (rule addFeePayerSignature_signed)
next
  fix e
  assume "feePayer_signed toPublicKey signFieldElement c additionalKeys (feePayer zkappCommand) = Inl e"
  then show "addMissingSignatures toPublicKey transactionCommitments signFieldElement s zkappCommand
                 additionalKeys = Some (Inl e)"
    using assms(3) by (simp add: addMissingSignatures_def addFeePayerSignature_signed)
next
  fix feePayer' before u after e
  assume a: "feePayer_signed toPublicKey signFieldElement c additionalKeys (feePayer zkappCommand) = Inr feePayer'
           \<and> cmd_accountUpdates zkappCommand = before @ u # after
           \<and> (\<forall>x \<in> set before.
                 signature_for toPublicKey signFieldElement c additionalKeys (heap s x) = Inr (g x))
           \<and> signature_for toPublicKey signFieldElement c additionalKeys (heap s u) = Inl e"
  have roots: "map root ts = before @ u # after" and trees: "\<forall>t \<in> set ts. is_tree (heap s) t"
    using assms(1) a by (simp_all add: is_forest_def)
  obtain tb t0 ta where ts: "ts = tb @ t0 # ta" and b: "map root tb = before" and u: "root t0 = u"
    using roots by (auto simp: map_eq_append_conv map_eq_Cons_conv)
  have al: "\<forall>t \<in> set ts. \<forall>r \<in> set (preorder t). r < allocated s"
    using assms(2) by (simp add: nodes_preorder)
  have "addSignatures toPublicKey signFieldElement c additionalKeys s (map root tb @ root t0 # after)
           = Some (Inl e)"
    using trees al a b u unfolding ts by (intro addSignatures_error [where g = g]) auto
  then show "addMissingSignatures toPublicKey transactionCommitments signFieldElement s zkappCommand
                 additionalKeys = Some (Inl e)"
    using assms(3) a b u by (simp add: addMissingSignatures_def addFeePayerSignature_signed)
next
  fix feePayer'
  assume a: "feePayer_signed toPublicKey signFieldElement c additionalKeys (feePayer zkappCommand) = Inr feePayer'
           \<and> (\<forall>x \<in> set (cmd_accountUpdates zkappCommand).
                 signature_for toPublicKey signFieldElement c additionalKeys (heap s x) = Inr (g x))"
  have roots: "cmd_accountUpdates zkappCommand = map root ts" and trees: "\<forall>t \<in> set ts. is_tree (heap s) t"
    using assms(1) by (simp_all add: is_forest_def)
  have al: "\<forall>t \<in> set ts. \<forall>r \<in> set (preorder t). r < allocated s"
    using assms(2) by (simp add: nodes_preorder)
  have "\<forall>t \<in> set ts. signature_for toPublicKey signFieldElement c additionalKeys (heap s (root t))
           = Inr (g (root t))"
    using a roots by simp
  then obtain s' cs where
    run: "addSignatures toPublicKey signFieldElement c additionalKeys s (map root ts) = Some (Inr (s', cs))"
    and f: "frame s s'"
    and all: "list_all2 (\<lambda>u c. signed_clone s s' (g u) u c) (map root ts) cs"
    using addSignatures_forest [OF trees al] by blast
  have "addMissingSignatures toPublicKey transactionCommitments signFieldElement s zkappCommand
          additionalKeys
        = Some (Inr (s', \<lparr>signed_feePayer = feePayer', signed_accountUpdates = cs,
                         signed_memo = memo zkappCommand\<rparr>))"
    using assms(3) a run roots by (simp add: addMissingSignatures_def addFeePayerSignature_signed)
  then show "\<exists>s' cs.
      addMissingSignatures toPublicKey transactionCommitments signFieldElement s zkappCommand
        additionalKeys
      = Some (Inr (s', \<lparr>signed_feePayer = feePayer', signed_accountUpdates = cs,
                       signed_memo = memo zkappCommand\<rparr>))
      \<and> frame s s'
      \<and> list_all2 (\<lambda>u c. signed_clone s s' (g u) u c) (cmd_accountUpdates zkappCommand) cs"
    using f all roots by auto
qed

lemmas sign_example_defs = sign_state_def sign_command_def lazily_def object_def keepAll_def
  toy_toPublicKey_def toy_sign_def toy_commitments_def signature_for_def feePayer_signed_def
  resolve_key_def

lemma sign_state_heap:
  "heap sign_state 0 = lazily (LazySignature None) False (object 10 (PublicKey 5) [1] None)"
  "heap sign_state 2 = lazily (LazySignature (Some (PrivateKey 9))) True (object 12 (PublicKey 6) [] None)"
  "heap sign_state 3 = lazily LazyNone False (object 13 (PublicKey 7) [] None)"
  by (simp_all add: sign_state_def)

text \<open>
  C6 on the example command, listed flat: signed with the keys 5 and 6; without keys, where
  the fee payer's key is missing; and with the fee payer's key but no other, where the key
  of update 0 is missing after update 2 has been signed.
\<close>

theorem addMissingSignatures_signs_witness:
  "(\<exists>s' c0 c1 c2 c3.
      addMissingSignatures toy_toPublicKey toy_commitments toy_sign sign_state
        (sign_command [0, 1, 2, 3] None) [PrivateKey 5, PrivateKey 6]
      = Some (Inr (s', \<lparr>signed_feePayer =
                          \<lparr>fp_body = \<lparr>fp_publicKey = PublicKey 5, fp_nonce = 0, fp_fee = 0, fp_validUntil = None\<rparr>,
                           fp_authorization = ''full-k5''\<rparr>,
                        signed_accountUpdates = [c0, c1, c2, c3], signed_memo = ''memo''\<rparr>))
      \<and> 4 \<le> c0 \<and> 4 \<le> c1 \<and> 4 \<le> c2 \<and> 4 \<le> c3
      \<and> authorization (heap s' c0) = \<lparr>control_proof = None, control_signature = Some ''partial-k5''\<rparr>
      \<and> lazyAuthorization (heap s' c0) = None
      \<and> authorization (heap s' c1) = \<lparr>control_proof = None, control_signature = Some ''partial-k6''\<rparr>
      \<and> authorization (heap s' c2) = \<lparr>control_proof = None, control_signature = Some ''full-k9''\<rparr>
      \<and> authorization (heap s' c3) = emptyControl
      \<and> lazyAuthorization (heap s' c3) = Some LazyNone
      \<and> heap s' 0 = heap sign_state 0)
   \<and> addMissingSignatures toy_toPublicKey toy_commitments toy_sign sign_state
        (sign_command [0, 1, 2, 3] None) [] = Some (Inl (MissingFeePayerKey (PublicKey 5)))
   \<and> addMissingSignatures toy_toPublicKey toy_commitments toy_sign sign_state
        (sign_command [2, 0, 3] (Some (PrivateKey 5))) [] = Some (Inl (MissingKey (PublicKey 5)))"
proof (intro conjI)
  let ?c = "\<lparr>commitment = 1, fullCommitment = 2\<rparr>"
  let ?g = "\<lambda>u :: ref. if u = 0 then Some ''partial-k5'' else if u = 1 then Some ''partial-k6''
              else if u = 2 then Some ''full-k9'' else None"
  have f: "is_forest (heap sign_state) (cmd_accountUpdates (sign_command [0, 1, 2, 3] None)) sign_forest"
    and f': "is_forest (heap sign_state) (cmd_accountUpdates (sign_command [2, 0, 3] (Some (PrivateKey 5))))
              sign_forest'"
    by (simp_all add: is_forest_def sign_forest_def sign_forest'_def sign_example_defs)
  have a: "\<forall>r \<in> set (nodes sign_forest). r < allocated sign_state"
    and a': "\<forall>r \<in> set (nodes sign_forest'). r < allocated sign_state"
    by (simp_all add: nodes_def walks_def sign_forest_def sign_forest'_def sign_state_def)
  have c: "?c = toy_commitments (heap sign_state) (sign_command [0, 1, 2, 3] None)"
    and c': "?c = toy_commitments (heap sign_state) (sign_command [2, 0, 3] (Some (PrivateKey 5)))"
    by (simp_all add: toy_commitments_def)
  have fp: "feePayer_signed toy_toPublicKey toy_sign ?c [PrivateKey 5, PrivateKey 6] (feePayer (sign_command [0, 1, 2, 3] None))
      = Inr \<lparr>fp_body = \<lparr>fp_publicKey = PublicKey 5, fp_nonce = 0, fp_fee = 0, fp_validUntil = None\<rparr>,
             fp_authorization = ''full-k5''\<rparr>"
    by (simp add: sign_example_defs)
  have g: "\<forall>x \<in> set (cmd_accountUpdates (sign_command [0, 1, 2, 3] None)).
      signature_for toy_toPublicKey toy_sign ?c [PrivateKey 5, PrivateKey 6] (heap sign_state x) = Inr (?g x)"
    by (simp add: sign_example_defs)
  note ok = addMissingSignatures_signs [where transactionCommitments = toy_commitments
      and toPublicKey = toy_toPublicKey and signFieldElement = toy_sign
      and additionalKeys = "[PrivateKey 5, PrivateKey 6]" and g = ?g, OF f a c,
      THEN conjunct2, THEN conjunct2, THEN conjunct2, rule_format, OF conjI, OF fp g]
  then obtain s' cs where run: "addMissingSignatures toy_toPublicKey toy_commitments toy_sign sign_state
        (sign_command [0, 1, 2, 3] None) [PrivateKey 5, PrivateKey 6]
      = Some (Inr (s', \<lparr>signed_feePayer =
                          \<lparr>fp_body = \<lparr>fp_publicKey = PublicKey 5, fp_nonce = 0, fp_fee = 0, fp_validUntil = None\<rparr>,
                           fp_authorization = ''full-k5''\<rparr>,
                        signed_accountUpdates = cs, signed_memo = memo (sign_command [0, 1, 2, 3] None)\<rparr>))"
    and fr: "frame sign_state s'"
    and all: "list_all2 (\<lambda>u c. signed_clone sign_state s' (?g u) u c)
                (cmd_accountUpdates (sign_command [0, 1, 2, 3] None)) cs"
    by blast
  have "list_all2 (\<lambda>u c. signed_clone sign_state s' (?g u) u c) [0, 1, 2, 3] cs"
    using all by (simp add: sign_command_def)
  then obtain c0 c1 c2 c3 where cs: "cs = [c0, c1, c2, c3]"
    and s0: "signed_clone sign_state s' (Some ''partial-k5'') 0 c0"
    and s1: "signed_clone sign_state s' (Some ''partial-k6'') (Suc 0) c1"
    and s2: "signed_clone sign_state s' (Some ''full-k9'') 2 c2"
    and s3: "signed_clone sign_state s' None 3 c3"
    by (auto simp: list_all2_Cons1)
  have e0: "(heap s' c0)\<lparr>children_accountUpdates := []\<rparr>
      = (with_signature (Some ''partial-k5'') (heap sign_state 0))\<lparr>children_accountUpdates := []\<rparr>"
    and e1: "(heap s' c1)\<lparr>children_accountUpdates := []\<rparr>
      = (with_signature (Some ''partial-k6'') (heap sign_state (Suc 0)))\<lparr>children_accountUpdates := []\<rparr>"
    and e2: "(heap s' c2)\<lparr>children_accountUpdates := []\<rparr>
      = (with_signature (Some ''full-k9'') (heap sign_state 2))\<lparr>children_accountUpdates := []\<rparr>"
    and e3: "(heap s' c3)\<lparr>children_accountUpdates := []\<rparr>
      = (with_signature None (heap sign_state 3))\<lparr>children_accountUpdates := []\<rparr>"
    and lo: "4 \<le> c0" "4 \<le> c1" "4 \<le> c2" "4 \<le> c3"
    using s0 s1 s2 s3 by (simp_all add: signed_clone_def sign_state_def)
  have "authorization ((heap s' c0)\<lparr>children_accountUpdates := []\<rparr>)
          = \<lparr>control_proof = None, control_signature = Some ''partial-k5''\<rparr>"
    "lazyAuthorization ((heap s' c0)\<lparr>children_accountUpdates := []\<rparr>) = None"
    unfolding e0 by (simp_all add: with_signature_def)
  moreover have "authorization ((heap s' c1)\<lparr>children_accountUpdates := []\<rparr>)
          = \<lparr>control_proof = None, control_signature = Some ''partial-k6''\<rparr>"
    unfolding e1 by (simp add: with_signature_def)
  moreover have "authorization ((heap s' c2)\<lparr>children_accountUpdates := []\<rparr>)
          = \<lparr>control_proof = None, control_signature = Some ''full-k9''\<rparr>"
    unfolding e2 by (simp add: with_signature_def)
  moreover have "authorization ((heap s' c3)\<lparr>children_accountUpdates := []\<rparr>) = emptyControl"
    "lazyAuthorization ((heap s' c3)\<lparr>children_accountUpdates := []\<rparr>) = Some LazyNone"
    unfolding e3 by (simp_all add: with_signature_def sign_state_heap lazily_def object_def)
  moreover have "heap s' 0 = heap sign_state 0"
    using fr by (simp add: frame_def sign_state_def)
  ultimately show "\<exists>s' c0 c1 c2 c3.
      addMissingSignatures toy_toPublicKey toy_commitments toy_sign sign_state
        (sign_command [0, 1, 2, 3] None) [PrivateKey 5, PrivateKey 6]
      = Some (Inr (s', \<lparr>signed_feePayer =
                          \<lparr>fp_body = \<lparr>fp_publicKey = PublicKey 5, fp_nonce = 0, fp_fee = 0, fp_validUntil = None\<rparr>,
                           fp_authorization = ''full-k5''\<rparr>,
                        signed_accountUpdates = [c0, c1, c2, c3], signed_memo = ''memo''\<rparr>))
      \<and> 4 \<le> c0 \<and> 4 \<le> c1 \<and> 4 \<le> c2 \<and> 4 \<le> c3
      \<and> authorization (heap s' c0) = \<lparr>control_proof = None, control_signature = Some ''partial-k5''\<rparr>
      \<and> lazyAuthorization (heap s' c0) = None
      \<and> authorization (heap s' c1) = \<lparr>control_proof = None, control_signature = Some ''partial-k6''\<rparr>
      \<and> authorization (heap s' c2) = \<lparr>control_proof = None, control_signature = Some ''full-k9''\<rparr>
      \<and> authorization (heap s' c3) = emptyControl
      \<and> lazyAuthorization (heap s' c3) = Some LazyNone
      \<and> heap s' 0 = heap sign_state 0"
    using run lo by (intro exI [of _ s'] exI [of _ c0] exI [of _ c1] exI [of _ c2] exI [of _ c3])
      (simp add: cs sign_command_def)

  have fpe: "feePayer_signed toy_toPublicKey toy_sign ?c [] (feePayer (sign_command [0, 1, 2, 3] None))
      = Inl (MissingFeePayerKey (PublicKey 5))"
    by (simp add: sign_example_defs)
  show "addMissingSignatures toy_toPublicKey toy_commitments toy_sign sign_state
        (sign_command [0, 1, 2, 3] None) [] = Some (Inl (MissingFeePayerKey (PublicKey 5)))"
    using addMissingSignatures_signs [where transactionCommitments = toy_commitments
      and toPublicKey = toy_toPublicKey and signFieldElement = toy_sign
      and additionalKeys = "[]" and g = ?g, OF f a c,
      THEN conjunct2, THEN conjunct1, rule_format, OF fpe] .

  let ?fp = "\<lparr>fp_body = \<lparr>fp_publicKey = PublicKey 5, fp_nonce = 0, fp_fee = 0, fp_validUntil = None\<rparr>,
             fp_authorization = ''full-k5''\<rparr>"
  have h: "feePayer_signed toy_toPublicKey toy_sign ?c []
             (feePayer (sign_command [2, 0, 3] (Some (PrivateKey 5)))) = Inr ?fp
      \<and> cmd_accountUpdates (sign_command [2, 0, 3] (Some (PrivateKey 5))) = [2] @ 0 # [3]
      \<and> (\<forall>x \<in> set [2]. signature_for toy_toPublicKey toy_sign ?c [] (heap sign_state x) = Inr (?g x))
      \<and> signature_for toy_toPublicKey toy_sign ?c [] (heap sign_state 0) = Inl (MissingKey (PublicKey 5))"
    by (simp add: sign_example_defs)
  show "addMissingSignatures toy_toPublicKey toy_commitments toy_sign sign_state
        (sign_command [2, 0, 3] (Some (PrivateKey 5))) [] = Some (Inl (MissingKey (PublicKey 5)))"
    using addMissingSignatures_signs [where transactionCommitments = toy_commitments
      and toPublicKey = toy_toPublicKey and signFieldElement = toy_sign
      and additionalKeys = "[]" and g = ?g, OF f' a' c',
      THEN conjunct2, THEN conjunct2, THEN conjunct1, rule_format, OF h] .
qed


section \<open>The owning lists under unlink and makeChildAccountUpdate\<close>






lemma put_fields [simp]:
  "allocated (put s w' l) = allocated s"
  "update_id (heap (put s w' l) x) = update_id (heap s x)"
  "owner_of (heap (put s w' l) x) = owner_of (heap s x)"
  by (cases w'; cases "currentTransaction s"; simp add: put_def modify_def owner_of_def)+





lemma put_transaction [simp]:
  "currentTransaction (put s (ChildrenOf p) l) = currentTransaction s"
  by (simp add: put_def)



















end
